theory Spec2Isabelle
  imports Main "HOL-Library.Word"
begin

section \<open>Memory model\<close>

text \<open>
  The filter database is a pointer structure, and the claims depend on which links the
  code sets and on what it frees.  The model therefore keeps an explicit store: one
  partial map per struct type from addresses to objects.  Address \<open>0\<close> is the null
  pointer; \<open>free\<close> removes an address from its map, so that a later access through a
  stale pointer is a fault of the model instead of a read of some unspecified value.
\<close>

type_synonym addr = nat

abbreviation NULL :: addr where "NULL \<equiv> 0"

text \<open>The local array element \<open>struct db_arg_filter\<close> of \<open>db_add_syscall\<close>.\<close>

record db_arg_filter =
  valid :: int
  f_arg :: nat
  f_op :: nat
  f_datum :: nat

text \<open>
  \<open>struct db_arg_chain_tree\<close> (db.h).  The unsigned fields that are only compared are
  natural numbers; \<open>refcnt\<close> is incremented, so it is a 32-bit word and wraps.
\<close>

record db_arg_chain_tree =
  arg :: nat
  op :: nat
  datum :: nat
  action :: nat
  action_flag :: nat
  lvl_prv :: addr
  lvl_nxt :: addr
  nxt_t :: addr
  nxt_f :: addr
  refcnt :: "32 word"

text \<open>\<open>struct db_sys_list\<close>; the field \<open>next\<close> of the source is \<open>s_next\<close> here.\<close>

record db_sys_list =
  num :: nat
  chains :: addr
  s_next :: addr

record db_filter =
  def_action :: nat
  syscalls :: addr

text \<open>
  The store: the live tree nodes, the live syscall entries, the filter object \<open>*db\<close>
  itself, and the allocator (the next unused address and the number of allocations
  that will still succeed; \<open>malloc\<close> returns \<open>NULL\<close> once that number is zero).
\<close>

record mem =
  trees :: "addr \<rightharpoonup> db_arg_chain_tree"
  syss :: "addr \<rightharpoonup> db_sys_list"
  filt :: db_filter
  brk :: addr
  avail :: nat

datatype fault = BadAccess | OutOfBounds | OutOfFuel

definition malloc :: "mem \<Rightarrow> addr \<times> mem" where
  "malloc m =
     (if avail m = 0 then (NULL, m)
      else (brk m, m\<lparr>brk := Suc (brk m), avail := avail m - 1\<rparr>))"

definition rd_tree :: "mem \<Rightarrow> addr \<Rightarrow> fault + db_arg_chain_tree" where
  "rd_tree m p =
     (if p = NULL then Inl BadAccess
      else case trees m p of None \<Rightarrow> Inl BadAccess | Some n \<Rightarrow> Inr n)"

definition wr_tree :: "mem \<Rightarrow> addr \<Rightarrow> (db_arg_chain_tree \<Rightarrow> db_arg_chain_tree) \<Rightarrow> fault + mem" where
  "wr_tree m p f =
     (case rd_tree m p of Inl e \<Rightarrow> Inl e
      | Inr n \<Rightarrow> Inr (m\<lparr>trees := (trees m)(p \<mapsto> f n)\<rparr>))"

definition free_tree :: "mem \<Rightarrow> addr \<Rightarrow> fault + mem" where
  "free_tree m p =
     (case rd_tree m p of Inl e \<Rightarrow> Inl e
      | Inr n \<Rightarrow> Inr (m\<lparr>trees := (trees m)(p := None)\<rparr>))"

definition rd_sys :: "mem \<Rightarrow> addr \<Rightarrow> fault + db_sys_list" where
  "rd_sys m p =
     (if p = NULL then Inl BadAccess
      else case syss m p of None \<Rightarrow> Inl BadAccess | Some s \<Rightarrow> Inr s)"

definition wr_sys :: "mem \<Rightarrow> addr \<Rightarrow> (db_sys_list \<Rightarrow> db_sys_list) \<Rightarrow> fault + mem" where
  "wr_sys m p f =
     (case rd_sys m p of Inl e \<Rightarrow> Inl e
      | Inr s \<Rightarrow> Inr (m\<lparr>syss := (syss m)(p \<mapsto> f s)\<rparr>))"

definition free_sys :: "mem \<Rightarrow> addr \<Rightarrow> fault + mem" where
  "free_sys m p =
     (case rd_sys m p of Inl e \<Rightarrow> Inl e
      | Inr s \<Rightarrow> Inr (m\<lparr>syss := (syss m)(p := None)\<rparr>))"

section \<open>Constants of the public header\<close>

text \<open>
  Modelled from the spec: \<open>seccomp.h\<close> is not among the sources, so \<open>SCMP_ARG_MAX\<close>
  is the spec's \<open>MAX_ARGS\<close> (6 on the platform of origin) and the comparison operators
  are the six raw operators of the spec, numbered from 1 in the order
  NE, LT, LE, EQ, GE, GT.  The error numbers are those of Linux.
\<close>

definition SCMP_ARG_MAX :: nat where "SCMP_ARG_MAX = 6"

definition SCMP_CMP_NE :: nat where "SCMP_CMP_NE = 1"
definition SCMP_CMP_LT :: nat where "SCMP_CMP_LT = 2"
definition SCMP_CMP_LE :: nat where "SCMP_CMP_LE = 3"
definition SCMP_CMP_EQ :: nat where "SCMP_CMP_EQ = 4"
definition SCMP_CMP_GE :: nat where "SCMP_CMP_GE = 5"
definition SCMP_CMP_GT :: nat where "SCMP_CMP_GT = 6"

definition ENOMEM :: int where "ENOMEM = 12"
definition EFAULT :: int where "EFAULT = 14"
definition EINVAL :: int where "EINVAL = 22"

section \<open>The macros of db.h\<close>

definition db_chain_lt :: "db_arg_chain_tree \<Rightarrow> db_arg_chain_tree \<Rightarrow> bool" where
  "db_chain_lt x y \<longleftrightarrow> arg x < arg y \<or> (arg x = arg y \<and> op x < op y)"

definition db_chain_eq :: "db_arg_chain_tree \<Rightarrow> db_arg_chain_tree \<Rightarrow> bool" where
  "db_chain_eq x y \<longleftrightarrow> arg x = arg y \<and> op x = op y \<and> datum x = datum y"

definition db_chain_leaf :: "db_arg_chain_tree \<Rightarrow> bool" where
  "db_chain_leaf x \<longleftrightarrow> action x \<noteq> 0"

section \<open>\<open>_db_arg_chain_tree_free\<close>\<close>

text \<open>
  The recursion of the source follows pointers, so it need not end on a store with a
  cycle; the first argument bounds the recursion depth, and \<open>OutOfFuel\<close> is the result
  when the bound is reached.  Each field is read when the
  source reads it, after the calls before it have returned.
\<close>

fun db_arg_chain_tree_free :: "nat \<Rightarrow> mem \<Rightarrow> addr \<Rightarrow> fault + mem" where
  "db_arg_chain_tree_free 0 m tree = Inl OutOfFuel"
| "db_arg_chain_tree_free (Suc k) m tree =
     (if tree = NULL then Inr m
      else (case rd_tree m tree of Inl e \<Rightarrow> Inl e | Inr n0 \<Rightarrow>
        (case db_arg_chain_tree_free k m (lvl_prv n0) of Inl e \<Rightarrow> Inl e | Inr m1 \<Rightarrow>
        (case rd_tree m1 tree of Inl e \<Rightarrow> Inl e | Inr n1 \<Rightarrow>
        (case db_arg_chain_tree_free k m1 (lvl_nxt n1) of Inl e \<Rightarrow> Inl e | Inr m2 \<Rightarrow>
        (case rd_tree m2 tree of Inl e \<Rightarrow> Inl e | Inr n2 \<Rightarrow>
        (case db_arg_chain_tree_free k m2 (nxt_t n2) of Inl e \<Rightarrow> Inl e | Inr m3 \<Rightarrow>
        (case rd_tree m3 tree of Inl e \<Rightarrow> Inl e | Inr n3 \<Rightarrow>
        (case db_arg_chain_tree_free k m3 (nxt_f n3) of Inl e \<Rightarrow> Inl e | Inr m4 \<Rightarrow>
           free_tree m4 tree)))))))))"

section \<open>\<open>_db_arg_chain_tree_remove\<close>\<close>

text \<open>
  The first parameter of the source is a pointer to a pointer field: \<open>&(s_iter->chains)\<close>
  in the call from \<open>db_add_syscall\<close>, \<open>&(c_iter->nxt_t)\<close> in both recursive calls.
\<close>

datatype tree_ref = Sys_chains addr | Tree_nxt_t addr

definition rd_ref :: "mem \<Rightarrow> tree_ref \<Rightarrow> fault + addr" where
  "rd_ref m r =
     (case r of
        Sys_chains s \<Rightarrow> (case rd_sys m s of Inl e \<Rightarrow> Inl e | Inr e \<Rightarrow> Inr (chains e))
      | Tree_nxt_t p \<Rightarrow> (case rd_tree m p of Inl e \<Rightarrow> Inl e | Inr n \<Rightarrow> Inr (nxt_t n)))"

definition wr_ref :: "mem \<Rightarrow> tree_ref \<Rightarrow> addr \<Rightarrow> fault + mem" where
  "wr_ref m r v =
     (case r of
        Sys_chains s \<Rightarrow> wr_sys m s (\<lambda>e. e\<lparr>chains := v\<rparr>)
      | Tree_nxt_t p \<Rightarrow> wr_tree m p (\<lambda>n. n\<lparr>nxt_t := v\<rparr>))"

text \<open>\<open>while (c_iter->lvl_prv != NULL) c_iter = c_iter->lvl_prv;\<close>\<close>

fun lvl_first :: "nat \<Rightarrow> mem \<Rightarrow> addr \<Rightarrow> fault + addr" where
  "lvl_first 0 m c_iter = Inl OutOfFuel"
| "lvl_first (Suc k) m c_iter =
     (case rd_tree m c_iter of Inl e \<Rightarrow> Inl e | Inr c \<Rightarrow>
       (if lvl_prv c \<noteq> NULL then lvl_first k m (lvl_prv c) else Inr c_iter))"

text \<open>The branch \<open>c_iter == node\<close> of the loop body: unlink, free and return.\<close>

definition remove_found :: "nat \<Rightarrow> mem \<Rightarrow> tree_ref \<Rightarrow> addr \<Rightarrow> fault + mem" where
  "remove_found k m tree c_iter =
     (case rd_ref m tree of Inl e \<Rightarrow> Inl e | Inr star \<Rightarrow>
     (case (if c_iter = star
            then (case rd_tree m c_iter of Inl e \<Rightarrow> Inl e | Inr c \<Rightarrow>
                    (if lvl_prv c \<noteq> NULL then wr_ref m tree (lvl_prv c)
                     else wr_ref m tree (lvl_nxt c)))
            else Inr m) of Inl e \<Rightarrow> Inl e | Inr m1 \<Rightarrow>
     (case rd_tree m1 c_iter of Inl e \<Rightarrow> Inl e | Inr c1 \<Rightarrow>
     (case (if lvl_prv c1 \<noteq> NULL
            then wr_tree m1 (lvl_prv c1) (\<lambda>n. n\<lparr>lvl_nxt := lvl_nxt c1\<rparr>)
            else Inr m1) of Inl e \<Rightarrow> Inl e | Inr m2 \<Rightarrow>
     (case rd_tree m2 c_iter of Inl e \<Rightarrow> Inl e | Inr c2 \<Rightarrow>
     (case (if lvl_nxt c2 \<noteq> NULL
            then wr_tree m2 (lvl_nxt c2) (\<lambda>n. n\<lparr>lvl_prv := lvl_prv c2\<rparr>)
            else Inr m2) of Inl e \<Rightarrow> Inl e | Inr m3 \<Rightarrow>
     (case wr_tree m3 c_iter (\<lambda>n. n\<lparr>lvl_prv := NULL\<rparr>) of Inl e \<Rightarrow> Inl e | Inr m4 \<Rightarrow>
     (case wr_tree m4 c_iter (\<lambda>n. n\<lparr>lvl_nxt := NULL\<rparr>) of Inl e \<Rightarrow> Inl e | Inr m5 \<Rightarrow>
        db_arg_chain_tree_free k m5 c_iter))))))))"

text \<open>
  \<open>db_arg_chain_tree_remove\<close> is the function, \<open>remove_loop\<close> its \<open>do ... while\<close> loop
  from the current \<open>c_iter\<close>.  Both recursive calls of the source pass
  \<open>&(c_iter->nxt_t)\<close>, the second one too, after the test of \<open>nxt_f\<close>.
\<close>

fun db_arg_chain_tree_remove :: "nat \<Rightarrow> mem \<Rightarrow> tree_ref \<Rightarrow> addr \<Rightarrow> fault + mem"
  and remove_loop :: "nat \<Rightarrow> mem \<Rightarrow> tree_ref \<Rightarrow> addr \<Rightarrow> addr \<Rightarrow> fault + mem" where
  "db_arg_chain_tree_remove 0 m tree node = Inl OutOfFuel"
| "db_arg_chain_tree_remove (Suc k) m tree node =
     (case rd_ref m tree of Inl e \<Rightarrow> Inl e | Inr star \<Rightarrow>
       (if star = NULL \<or> node = NULL then Inr m
        else (case lvl_first (Suc k) m star of Inl e \<Rightarrow> Inl e | Inr c_iter \<Rightarrow>
          remove_loop k m tree node c_iter)))"
| "remove_loop 0 m tree node c_iter = Inl OutOfFuel"
| "remove_loop (Suc k) m tree node c_iter =
     (if c_iter = node then remove_found (Suc k) m tree c_iter
      else (case rd_tree m c_iter of Inl e \<Rightarrow> Inl e | Inr c \<Rightarrow>
        (if nxt_t c = node
         then (case db_arg_chain_tree_free (Suc k) m (nxt_t c) of Inl e \<Rightarrow> Inl e | Inr m1 \<Rightarrow>
                 wr_tree m1 c_iter (\<lambda>n. n\<lparr>nxt_t := NULL\<rparr>))
         else (case db_arg_chain_tree_remove k m (Tree_nxt_t c_iter) node of
                 Inl e \<Rightarrow> Inl e | Inr m1 \<Rightarrow>
           (case rd_tree m1 c_iter of Inl e \<Rightarrow> Inl e | Inr c1 \<Rightarrow>
             (if nxt_f c1 = node
              then (case db_arg_chain_tree_free (Suc k) m1 (nxt_f c1) of Inl e \<Rightarrow> Inl e | Inr m2 \<Rightarrow>
                      wr_tree m2 c_iter (\<lambda>n. n\<lparr>nxt_f := NULL\<rparr>))
              else (case db_arg_chain_tree_remove k m1 (Tree_nxt_t c_iter) node of
                      Inl e \<Rightarrow> Inl e | Inr m2 \<Rightarrow>
                (case rd_tree m2 c_iter of Inl e \<Rightarrow> Inl e | Inr c2 \<Rightarrow>
                  (if lvl_nxt c2 \<noteq> NULL then remove_loop k m2 tree node (lvl_nxt c2)
                   else Inr m2)))))))))"

section \<open>\<open>db_new\<close> and \<open>db_find_syscall\<close>\<close>

text \<open>
  \<open>db_new\<close> yields the empty filter; the store starts with no other object, and its
  first parameter is the number of allocations that will succeed afterwards.
\<close>

definition db_new :: "nat \<Rightarrow> nat \<Rightarrow> mem" where
  "db_new n da =
     \<lparr>trees = Map.empty, syss = Map.empty,
      filt = \<lparr>def_action = da, syscalls = NULL\<rparr>, brk = 1, avail = n\<rparr>"

fun find_loop :: "nat \<Rightarrow> mem \<Rightarrow> nat \<Rightarrow> addr \<Rightarrow> fault + addr" where
  "find_loop 0 m syscall iter = Inl OutOfFuel"
| "find_loop (Suc k) m syscall iter =
     (if iter = NULL then Inr iter
      else (case rd_sys m iter of Inl e \<Rightarrow> Inl e | Inr s \<Rightarrow>
        (if num s < syscall then find_loop k m syscall (s_next s) else Inr iter)))"

definition db_find_syscall :: "nat \<Rightarrow> mem \<Rightarrow> nat \<Rightarrow> fault + addr" where
  "db_find_syscall k m syscall =
     (case find_loop k m syscall (syscalls (filt m)) of Inl e \<Rightarrow> Inl e | Inr iter \<Rightarrow>
       (if iter = NULL then Inr NULL
        else (case rd_sys m iter of Inl e \<Rightarrow> Inl e | Inr s \<Rightarrow>
          (if num s = syscall then Inr iter else Inr NULL))))"

section \<open>\<open>db_add_syscall\<close>\<close>

subsection \<open>Sorting the argument filters into the local array\<close>

text \<open>
  The variable arguments are the list of triples (argument number, operator, datum);
  \<open>chain_len\<close> is its length.  The array \<open>chain\<close> has \<open>SCMP_ARG_MAX\<close> elements, and
  the source indexes it with the argument number it has just read, without a check:
  an index outside the array is the fault \<open>OutOfBounds\<close>.  \<open>Inr (Inl rc)\<close> is the
  early \<open>return rc\<close>.
\<close>

definition zero_filter :: db_arg_filter where
  "zero_filter = \<lparr>valid = 0, f_arg = 0, f_op = 0, f_datum = 0\<rparr>"

fun fill_chain ::
  "db_arg_filter list \<Rightarrow> (nat \<times> nat \<times> nat) list \<Rightarrow> fault + (int + db_arg_filter list)" where
  "fill_chain chain [] = Inr (Inr chain)"
| "fill_chain chain ((arg_num, opr, dat) # rest) =
     (if length chain \<le> arg_num then Inl OutOfBounds
      else if valid (chain ! arg_num) = 1 then Inr (Inl (- EINVAL))
      else fill_chain
             (chain[arg_num := \<lparr>valid = 1, f_arg = arg_num, f_op = opr, f_datum = dat\<rparr>])
             rest)"

subsection \<open>Building the new chain\<close>

definition zero_tree :: db_arg_chain_tree where
  "zero_tree =
     \<lparr>arg = 0, op = 0, datum = 0, action = 0, action_flag = 0,
      lvl_prv = NULL, lvl_nxt = NULL, nxt_t = NULL, nxt_f = NULL, refcnt = 0\<rparr>"

text \<open>The \<open>switch\<close> on the operator: the stored operator and the new \<open>tf_flag\<close>.\<close>

definition op_rewrite :: "nat \<Rightarrow> nat \<times> nat" where
  "op_rewrite c =
     (if c = SCMP_CMP_NE then (SCMP_CMP_EQ, 0)
      else if c = SCMP_CMP_LT then (SCMP_CMP_GE, 0)
      else if c = SCMP_CMP_LE then (SCMP_CMP_GT, 0)
      else (c, 1))"

text \<open>
  The loop over the array, one call per element from index \<open>iter\<close> on.  The result is
  the store, \<open>c_iter\<close> and \<open>tf_flag\<close> after the loop, and \<open>False\<close> in the first component
  when \<open>malloc\<close> failed (\<open>goto add_free\<close>).  \<open>tf_flag\<close> is read only when \<open>c_prev\<close> is
  set, that is after an earlier iteration has assigned it.
\<close>

fun build_chain ::
  "db_arg_filter list \<Rightarrow> mem \<Rightarrow> addr \<Rightarrow> addr \<Rightarrow> addr \<Rightarrow> nat \<Rightarrow>
   fault + (bool \<times> mem \<times> addr \<times> nat)" where
  "build_chain [] m s_new c_iter c_prev tf_flag = Inr (True, m, c_iter, tf_flag)"
| "build_chain (a # rest) m s_new c_iter c_prev tf_flag =
     (if valid a = 0 then build_chain rest m s_new c_iter c_prev tf_flag
      else (case malloc m of (p, m1) \<Rightarrow>
        (if p = NULL then Inr (False, m1, p, tf_flag)
         else (case (if c_prev \<noteq> NULL
                     then (case wr_tree
                                 (m1\<lparr>trees := (trees m1)(p \<mapsto>
                                    zero_tree\<lparr>arg := f_arg a, op := f_op a,
                                              datum := f_datum a, refcnt := 1\<rparr>)\<rparr>)
                                 c_prev (\<lambda>n. n\<lparr>action := 0\<rparr>) of
                             Inl e \<Rightarrow> Inl e
                           | Inr m2 \<Rightarrow>
                               (if tf_flag \<noteq> 0 then wr_tree m2 c_prev (\<lambda>n. n\<lparr>nxt_t := p\<rparr>)
                                else wr_tree m2 c_prev (\<lambda>n. n\<lparr>nxt_f := p\<rparr>)))
                     else wr_sys
                            (m1\<lparr>trees := (trees m1)(p \<mapsto>
                               zero_tree\<lparr>arg := f_arg a, op := f_op a,
                                         datum := f_datum a, refcnt := 1\<rparr>)\<rparr>)
                            s_new (\<lambda>s. s\<lparr>chains := p\<rparr>)) of
                 Inl e \<Rightarrow> Inl e
               | Inr m3 \<Rightarrow>
                   (case wr_tree m3 p (\<lambda>n. n\<lparr>op := fst (op_rewrite (op n))\<rparr>) of
                      Inl e \<Rightarrow> Inl e
                    | Inr m4 \<Rightarrow>
                        build_chain rest m4 s_new p p (snd (op_rewrite (f_op a))))))))"

subsection \<open>The two exits that free the new chain\<close>

definition add_free :: "nat \<Rightarrow> mem \<Rightarrow> addr \<Rightarrow> int \<Rightarrow> fault + (int \<times> mem)" where
  "add_free k m s_new rc =
     (case rd_sys m s_new of Inl e \<Rightarrow> Inl e | Inr s \<Rightarrow>
     (case db_arg_chain_tree_free k m (chains s) of Inl e \<Rightarrow> Inl e | Inr m1 \<Rightarrow>
     (case free_sys m1 s_new of Inl e \<Rightarrow> Inl e | Inr m2 \<Rightarrow> Inr (rc, m2))))"

definition add_free_match :: "nat \<Rightarrow> mem \<Rightarrow> addr \<Rightarrow> addr \<Rightarrow> fault + (int \<times> mem)" where
  "add_free_match k m s_new c_prev =
     (case (if c_prev \<noteq> NULL
            then (case wr_tree m c_prev (\<lambda>n. n\<lparr>nxt_t := NULL\<rparr>) of Inl e \<Rightarrow> Inl e | Inr m1 \<Rightarrow>
                 (case wr_tree m1 c_prev (\<lambda>n. n\<lparr>nxt_f := NULL\<rparr>) of Inl e \<Rightarrow> Inl e | Inr m2 \<Rightarrow>
                 (case rd_sys m2 s_new of Inl e \<Rightarrow> Inl e | Inr s \<Rightarrow>
                    db_arg_chain_tree_free k m2 (chains s))))
            else Inr m) of Inl e \<Rightarrow> Inl e | Inr m3 \<Rightarrow>
     (case free_sys m3 s_new of Inl e \<Rightarrow> Inl e | Inr m4 \<Rightarrow> Inr (0, m4)))"

subsection \<open>The walk of the two chains\<close>

text \<open>
  One pass through the body of the \<open>do ... while\<close> loop.  It either leaves the function
  (\<open>Done rc m\<close>: a \<open>return\<close>, or one of the two exits above) or reaches the loop
  condition with the new store and the new values of \<open>c_prev\<close>, \<open>c_iter\<close> and
  \<open>ec_iter\<close>.  The two nodes are read once at the top: until the pass ends or frees
  something, the only field written before a later read is \<open>refcnt\<close>, which is not read
  again, and \<open>action_flag\<close> of \<open>ec_iter\<close>, which is read back as the value just stored.
\<close>

datatype ctl = Done int mem | Next mem addr addr addr

definition ret :: "fault + (int \<times> mem) \<Rightarrow> fault + ctl" where
  "ret r = (case r of Inl e \<Rightarrow> Inl e | Inr (rc, m) \<Rightarrow> Inr (Done rc m))"

definition walk_step ::
  "nat \<Rightarrow> mem \<Rightarrow> nat \<Rightarrow> addr \<Rightarrow> addr \<Rightarrow> addr \<Rightarrow> addr \<Rightarrow> addr \<Rightarrow> fault + ctl" where
  "walk_step k m act s_new s_iter c_prev c_iter ec_iter =
     (case rd_tree m c_iter of Inl e \<Rightarrow> Inl e | Inr c \<Rightarrow>
     (case rd_tree m ec_iter of Inl e \<Rightarrow> Inl e | Inr ec \<Rightarrow>
       (if db_chain_eq c ec then
          (case wr_tree m ec_iter (\<lambda>n. n\<lparr>refcnt := refcnt n + 1\<rparr>) of Inl e \<Rightarrow> Inl e | Inr m1 \<Rightarrow>
            (if db_chain_leaf ec \<and> db_chain_leaf c then
               (if action_flag ec \<noteq> action_flag c
                then (case db_arg_chain_tree_remove k m1 (Sys_chains s_iter) ec_iter of
                        Inl e \<Rightarrow> Inl e | Inr m2 \<Rightarrow> ret (add_free k m2 s_new 0))
                else ret (add_free k m1 s_new 0))
             else if db_chain_leaf ec then
               (if action_flag ec \<noteq> 0
                then (if nxt_t c \<noteq> NULL then ret (add_free k m1 s_new 0)
                      else (case wr_tree m1 ec_iter (\<lambda>n. n\<lparr>nxt_f := nxt_f c\<rparr>) of
                              Inl e \<Rightarrow> Inl e | Inr m2 \<Rightarrow> ret (add_free_match k m2 s_new c_prev)))
                else (if nxt_f c \<noteq> NULL then ret (add_free k m1 s_new 0)
                      else (case wr_tree m1 ec_iter (\<lambda>n. n\<lparr>nxt_t := nxt_t c\<rparr>) of
                              Inl e \<Rightarrow> Inl e | Inr m2 \<Rightarrow> ret (add_free_match k m2 s_new c_prev))))
             else if db_chain_leaf c then
               (case wr_tree m1 ec_iter (\<lambda>n. n\<lparr>action := act, action_flag := action_flag c\<rparr>) of
                  Inl e \<Rightarrow> Inl e | Inr m2 \<Rightarrow>
                 (if action_flag c \<noteq> 0
                  then (case db_arg_chain_tree_free k m2 (nxt_t ec) of Inl e \<Rightarrow> Inl e | Inr m3 \<Rightarrow>
                       (case wr_tree m3 ec_iter (\<lambda>n. n\<lparr>nxt_t := NULL\<rparr>) of
                          Inl e \<Rightarrow> Inl e | Inr m4 \<Rightarrow> Inr (Done 0 m4)))
                  else (case db_arg_chain_tree_free k m2 (nxt_f ec) of Inl e \<Rightarrow> Inl e | Inr m3 \<Rightarrow>
                       (case wr_tree m3 ec_iter (\<lambda>n. n\<lparr>nxt_f := NULL\<rparr>) of
                          Inl e \<Rightarrow> Inl e | Inr m4 \<Rightarrow> Inr (Done 0 m4)))))
             else if nxt_t c \<noteq> NULL then
               (if nxt_t ec = NULL
                then (case wr_tree m1 ec_iter (\<lambda>n. n\<lparr>nxt_t := nxt_t c\<rparr>) of
                        Inl e \<Rightarrow> Inl e | Inr m2 \<Rightarrow> ret (add_free_match k m2 s_new c_prev))
                else Inr (Next m1 c_iter (nxt_t c) (nxt_t ec)))
             else if nxt_f c \<noteq> NULL then
               (if nxt_f ec = NULL
                then (case wr_tree m1 ec_iter (\<lambda>n. n\<lparr>nxt_f := nxt_f c\<rparr>) of
                        Inl e \<Rightarrow> Inl e | Inr m2 \<Rightarrow> ret (add_free_match k m2 s_new c_prev))
                else Inr (Next m1 c_iter (nxt_f c) (nxt_f ec)))
             else ret (add_free k m1 s_new (- EFAULT))))
        else if db_chain_lt c ec then
          (if lvl_prv ec = NULL
           then (case wr_tree m ec_iter (\<lambda>n. n\<lparr>lvl_prv := c_iter\<rparr>) of
                   Inl e \<Rightarrow> Inl e | Inr m1 \<Rightarrow> ret (add_free_match k m1 s_new c_prev))
           else Inr (Next m c_prev c_iter (lvl_prv ec)))
        else
          (if lvl_nxt ec = NULL
           then (case wr_tree m ec_iter (\<lambda>n. n\<lparr>lvl_nxt := c_iter\<rparr>) of
                   Inl e \<Rightarrow> Inl e | Inr m1 \<Rightarrow> ret (add_free_match k m1 s_new c_prev))
           else Inr (Next m c_prev c_iter (lvl_nxt ec))))))"

text \<open>
  The loop: \<open>j\<close> bounds the number of passes, \<open>k\<close> the depth of the frees and removals
  in a pass.  When the loop condition fails the source returns \<open>-EFAULT\<close>.
\<close>

fun walk ::
  "nat \<Rightarrow> nat \<Rightarrow> mem \<Rightarrow> nat \<Rightarrow> addr \<Rightarrow> addr \<Rightarrow> addr \<Rightarrow> addr \<Rightarrow> addr \<Rightarrow> fault + (int \<times> mem)" where
  "walk 0 k m act s_new s_iter c_prev c_iter ec_iter = Inl OutOfFuel"
| "walk (Suc j) k m act s_new s_iter c_prev c_iter ec_iter =
     (case walk_step k m act s_new s_iter c_prev c_iter ec_iter of
        Inl e \<Rightarrow> Inl e
      | Inr (Done rc m') \<Rightarrow> Inr (rc, m')
      | Inr (Next m' c_prev' c_iter' ec_iter') \<Rightarrow>
          (if c_iter' \<noteq> NULL \<and> ec_iter' \<noteq> NULL
           then walk j k m' act s_new s_iter c_prev' c_iter' ec_iter'
           else Inr (- EFAULT, m')))"

subsection \<open>Finding the syscall and merging\<close>

text \<open>\<open>while (s_iter != NULL && s_iter->num < syscall)\<close>: the final \<open>s_iter\<close> and \<open>s_prev\<close>.\<close>

fun sys_seek :: "nat \<Rightarrow> mem \<Rightarrow> nat \<Rightarrow> addr \<Rightarrow> addr \<Rightarrow> fault + (addr \<times> addr)" where
  "sys_seek 0 m syscall s_iter s_prev = Inl OutOfFuel"
| "sys_seek (Suc k) m syscall s_iter s_prev =
     (if s_iter = NULL then Inr (s_iter, s_prev)
      else (case rd_sys m s_iter of Inl e \<Rightarrow> Inl e | Inr s \<Rightarrow>
        (if num s < syscall then sys_seek k m syscall (s_next s) s_iter
         else Inr (s_iter, s_prev))))"

text \<open>The branch "new syscall, add before \<open>s_iter\<close>".\<close>

definition add_new_entry :: "mem \<Rightarrow> addr \<Rightarrow> addr \<Rightarrow> fault + (int \<times> mem)" where
  "add_new_entry m s_new s_prev =
     (if s_prev \<noteq> NULL
      then (case wr_sys m s_prev (\<lambda>s. s\<lparr>s_next := s_new\<rparr>) of
              Inl e \<Rightarrow> Inl e | Inr m1 \<Rightarrow> Inr (0, m1))
      else Inr (0, m\<lparr>filt := (filt m)\<lparr>syscalls := s_new\<rparr>\<rparr>))"

text \<open>The function from "find a matching syscall/chain or insert a new one" on.\<close>

definition add_merge :: "nat \<Rightarrow> mem \<Rightarrow> nat \<Rightarrow> nat \<Rightarrow> addr \<Rightarrow> fault + (int \<times> mem)" where
  "add_merge k m act syscall s_new =
     (case sys_seek k m syscall (syscalls (filt m)) NULL of
        Inl e \<Rightarrow> Inl e
      | Inr (s_iter, s_prev) \<Rightarrow>
          (if s_iter = NULL then add_new_entry m s_new s_prev
           else (case rd_sys m s_iter of Inl e \<Rightarrow> Inl e | Inr s \<Rightarrow>
             (if num s \<noteq> syscall then add_new_entry m s_new s_prev
              else if chains s = NULL then add_free k m s_new 0
              else (case rd_sys m s_new of Inl e \<Rightarrow> Inl e | Inr sn \<Rightarrow>
                (if chains sn = NULL
                 then (case db_arg_chain_tree_free k m (chains s) of Inl e \<Rightarrow> Inl e | Inr m1 \<Rightarrow>
                      (case wr_sys m1 s_iter (\<lambda>s. s\<lparr>chains := NULL\<rparr>) of Inl e \<Rightarrow> Inl e | Inr m2 \<Rightarrow>
                         add_free k m2 s_new 0))
                 else walk k k m act s_new s_iter NULL (chains sn) (chains s)))))))"

text \<open>
  The function up to "no more failures allowed after this point": the argument check,
  the array, the allocation of \<open>s_new\<close> and of the chain, and the marking of the leaf.
  \<open>Inr (Inl rc)\<close> is the early \<open>return rc\<close>, before anything is allocated;
  \<open>Inr (Inr (ok, s_new, m'))\<close> is the new store with \<open>s_new\<close>, and \<open>ok\<close> is false when a
  \<open>malloc\<close> failed and the source jumps to \<open>add_free\<close>.
\<close>

definition add_chain ::
  "mem \<Rightarrow> nat \<Rightarrow> nat \<Rightarrow> (nat \<times> nat \<times> nat) list \<Rightarrow>
   fault + (int + (bool \<times> addr \<times> mem))" where
  "add_chain m act syscall chain_list =
     (if SCMP_ARG_MAX < length chain_list then Inr (Inl (- EINVAL))
      else (case fill_chain (replicate SCMP_ARG_MAX zero_filter) chain_list of
              Inl e \<Rightarrow> Inl e
            | Inr (Inl rc) \<Rightarrow> Inr (Inl rc)
            | Inr (Inr chain) \<Rightarrow>
                (case malloc m of (s_new, m0) \<Rightarrow>
                  (if s_new = NULL then Inr (Inr (False, s_new, m0))
                   else (case build_chain chain
                                 (m0\<lparr>syss := (syss m0)(s_new \<mapsto>
                                    \<lparr>num = syscall, chains = NULL, s_next = NULL\<rparr>)\<rparr>)
                                 s_new NULL NULL 0 of
                           Inl e \<Rightarrow> Inl e
                         | Inr (ok, m1, c_iter, tf_flag) \<Rightarrow>
                             (if \<not> ok then Inr (Inr (False, s_new, m1))
                              else (case (if c_iter \<noteq> NULL
                                          then wr_tree m1 c_iter
                                                 (\<lambda>n. n\<lparr>action := act, action_flag := tf_flag\<rparr>)
                                          else Inr m1) of
                                      Inl e \<Rightarrow> Inl e
                                    | Inr m2 \<Rightarrow> Inr (Inr (True, s_new, m2)))))))))"

text \<open>
  The whole function.  The fuel \<open>k\<close> bounds every loop and every recursion that follows
  pointers; the loops over the array and over the arguments are bounded by themselves.
  When the first \<open>malloc\<close> fails the source jumps to \<open>add_free\<close> with \<open>s_new\<close> null, and
  \<open>add_free\<close> reads \<open>s_new->chains\<close>.
\<close>

definition db_add_syscall ::
  "nat \<Rightarrow> mem \<Rightarrow> nat \<Rightarrow> nat \<Rightarrow> (nat \<times> nat \<times> nat) list \<Rightarrow> fault + (int \<times> mem)" where
  "db_add_syscall k m act syscall chain_list =
     (case add_chain m act syscall chain_list of
        Inl e \<Rightarrow> Inl e
      | Inr (Inl rc) \<Rightarrow> Inr (rc, m)
      | Inr (Inr (ok, s_new, m1)) \<Rightarrow>
          (if \<not> ok then add_free k m1 s_new (- ENOMEM)
           else add_merge k m1 act syscall s_new))"

text \<open>A caller's sequence of \<open>db_add_syscall\<close> calls (action, syscall, arguments), with
  the return values in order.\<close>

fun add_all ::
  "nat \<Rightarrow> mem \<Rightarrow> (nat \<times> nat \<times> (nat \<times> nat \<times> nat) list) list \<Rightarrow> fault + (int list \<times> mem)" where
  "add_all k m [] = Inr ([], m)"
| "add_all k m ((act, syscall, chain_list) # rest) =
     (case db_add_syscall k m act syscall chain_list of
        Inl e \<Rightarrow> Inl e
      | Inr (rc, m1) \<Rightarrow>
          (case add_all k m1 rest of
             Inl e \<Rightarrow> Inl e
           | Inr (rcs, m2) \<Rightarrow> Inr (rc # rcs, m2)))"

section \<open>Predicates of the proofs\<close>

text \<open>
  \<open>post F Q r\<close>: a result \<open>r\<close> that is a fault satisfies \<open>F\<close>, one that is a value
  satisfies \<open>Q\<close>.  The rules below decompose a function of the model along its text.
\<close>

definition post :: "(fault \<Rightarrow> bool) \<Rightarrow> ('a \<Rightarrow> bool) \<Rightarrow> fault + 'a \<Rightarrow> bool" where
  "post F Q r = (case r of Inl e \<Rightarrow> F e | Inr v \<Rightarrow> Q v)"

text \<open>The return values of the merge: success, or the "we should never be here" exits.\<close>

definition rc_merge :: "int \<Rightarrow> bool" where
  "rc_merge rc \<longleftrightarrow> rc = 0 \<or> rc = - EFAULT"

text \<open>
  Leaf discipline (I4, P5): a node that carries an action has no child on the side of
  its action flag.  \<open>leaf_discipline\<close> asks it of every live node of the store, which
  includes every node of every stored tree.
\<close>

definition node_ok :: "db_arg_chain_tree \<Rightarrow> bool" where
  "node_ok n \<longleftrightarrow>
     action n = 0 \<or> (if action_flag n \<noteq> 0 then nxt_t n = NULL else nxt_f n = NULL)"

definition leaf_discipline :: "mem \<Rightarrow> bool" where
  "leaf_discipline m \<longleftrightarrow> (\<forall>p n. trees m p = Some n \<longrightarrow> node_ok n)"

text \<open>
  What \<open>free\<close> and the removal of a node may do to a node they leave in the store:
  they keep its action and action flag and never set a child pointer that was null.
  \<open>shrinks h h'\<close>: every node of \<open>h'\<close> comes from a node of \<open>h\<close> in this way.
\<close>

definition node_sub :: "db_arg_chain_tree \<Rightarrow> db_arg_chain_tree \<Rightarrow> bool" where
  "node_sub n n' \<longleftrightarrow>
     action n' = action n \<and> action_flag n' = action_flag n \<and>
     (nxt_t n = NULL \<longrightarrow> nxt_t n' = NULL) \<and> (nxt_f n = NULL \<longrightarrow> nxt_f n' = NULL)"

definition shrinks ::
  "(addr \<rightharpoonup> db_arg_chain_tree) \<Rightarrow> (addr \<rightharpoonup> db_arg_chain_tree) \<Rightarrow> bool" where
  "shrinks h h' \<longleftrightarrow> (\<forall>p n'. h' p = Some n' \<longrightarrow> (\<exists>n. h p = Some n \<and> node_sub n n'))"

text \<open>The last node of the chain under construction: it has no children yet.\<close>

definition tail_ok :: "mem \<Rightarrow> addr \<Rightarrow> bool" where
  "tail_ok m c \<longleftrightarrow>
     c = NULL \<or> (c < brk m \<and> (\<exists>n. trees m c = Some n \<and> nxt_t n = NULL \<and> nxt_f n = NULL))"

section \<open>Shapes of stored trees\<close>

text \<open>
  The four pointers of a node (\<open>lvl_prv\<close>, \<open>lvl_nxt\<close>, \<open>nxt_t\<close>, \<open>nxt_f\<close>) are
  followed by \<open>_db_arg_chain_tree_free\<close> as the links to four owned subtrees.
  \<open>tree_at h p s\<close>: in the store \<open>h\<close> the pointer \<open>p\<close> is the root of a tree of shape \<open>s\<close>,
  every node of which is live and reached by one path only.
\<close>

datatype shape = Tip | Fork addr shape shape shape shape

fun addrs :: "shape \<Rightarrow> addr set" where
  "addrs Tip = {}"
| "addrs (Fork a l r t f) = insert a (addrs l \<union> addrs r \<union> addrs t \<union> addrs f)"

fun height :: "shape \<Rightarrow> nat" where
  "height Tip = 0"
| "height (Fork a l r t f) = Suc (max (max (height l) (height r)) (max (height t) (height f)))"

fun tree_at :: "(addr \<rightharpoonup> db_arg_chain_tree) \<Rightarrow> addr \<Rightarrow> shape \<Rightarrow> bool" where
  "tree_at h p Tip \<longleftrightarrow> p = NULL"
| "tree_at h p (Fork a l r t f) \<longleftrightarrow>
     p = a \<and> a \<noteq> NULL \<and>
     (case h a of None \<Rightarrow> False
      | Some n \<Rightarrow> tree_at h (lvl_prv n) l \<and> tree_at h (lvl_nxt n) r \<and>
                  tree_at h (nxt_t n) t \<and> tree_at h (nxt_f n) f) \<and>
     a \<notin> addrs l \<union> addrs r \<union> addrs t \<union> addrs f \<and>
     addrs l \<inter> addrs r = {} \<and> addrs l \<inter> addrs t = {} \<and> addrs l \<inter> addrs f = {} \<and>
     addrs r \<inter> addrs t = {} \<and> addrs r \<inter> addrs f = {} \<and> addrs t \<inter> addrs f = {}"

section \<open>The normalised chain\<close>

text \<open>
  The table of the spec (4.1), written from its words: the raw operator, and the stored
  operator with the action branch.  It is compared below with \<open>op_rewrite\<close>, which is the
  \<open>switch\<close> of the source.
\<close>

definition norm_table :: "nat \<Rightarrow> nat \<times> nat" where
  "norm_table c =
     (if c = SCMP_CMP_EQ then (SCMP_CMP_EQ, 1)
      else if c = SCMP_CMP_NE then (SCMP_CMP_EQ, 0)
      else if c = SCMP_CMP_LT then (SCMP_CMP_GE, 0)
      else if c = SCMP_CMP_LE then (SCMP_CMP_GT, 0)
      else if c = SCMP_CMP_GT then (SCMP_CMP_GT, 1)
      else (SCMP_CMP_GE, 1))"

text \<open>
  \<open>chain_at h p ns act\<close>: in the store \<open>h\<close> the pointer \<open>p\<close> is the head of the rule chain
  \<open>ns\<close>, a list of (argument, stored operator, datum, action branch).  Every node but
  the last has no action and its only child, on the side of its action branch, is the
  next node; the last node has the action \<open>act\<close>, its action branch as action flag, and
  no child.  No node has a neighbour on its level, and every reference count is 1.
\<close>

fun chain_at ::
  "(addr \<rightharpoonup> db_arg_chain_tree) \<Rightarrow> addr \<Rightarrow> (nat \<times> nat \<times> nat \<times> nat) list \<Rightarrow> nat \<Rightarrow> bool" where
  "chain_at h p [] act \<longleftrightarrow> p = NULL"
| "chain_at h p ((a, c, d, tf) # ns) act \<longleftrightarrow>
     p \<noteq> NULL \<and>
     (case h p of None \<Rightarrow> False
      | Some n \<Rightarrow>
          arg n = a \<and> op n = c \<and> datum n = d \<and>
          lvl_prv n = NULL \<and> lvl_nxt n = NULL \<and> refcnt n = 1 \<and>
          (if ns = []
           then action n = act \<and> action_flag n = tf \<and> nxt_t n = NULL \<and> nxt_f n = NULL
           else action n = 0 \<and>
                (if tf \<noteq> 0 then nxt_f n = NULL \<and> chain_at h (nxt_t n) ns act
                 else nxt_t n = NULL \<and> chain_at h (nxt_f n) ns act)))"

text \<open>
  The chain under construction in \<open>db_add_syscall\<close>.  \<open>slot xs i\<close> is element \<open>i\<close> of the
  array after the argument filters \<open>xs\<close> are sorted into it, \<open>norm_entry\<close> the predicate
  stored for an element.  \<open>built m s sc ns\<close>: the entry \<open>s\<close> and, at the addresses after
  it, the nodes of \<open>ns\<close> built so far, each linked to the next on the side of its own
  action branch; \<open>cursor\<close> gives \<open>c_prev\<close> and \<open>tf_flag\<close> at that point; \<open>frame\<close>: what the
  construction leaves unchanged.
\<close>

definition norm_entry :: "db_arg_filter \<Rightarrow> nat \<times> nat \<times> nat \<times> nat" where
  "norm_entry a = (f_arg a, fst (op_rewrite (f_op a)), f_datum a, snd (op_rewrite (f_op a)))"

definition mk_node :: "nat \<times> nat \<times> nat \<times> nat \<Rightarrow> addr \<Rightarrow> db_arg_chain_tree" where
  "mk_node x q =
     (case x of (a, c, d, tf) \<Rightarrow>
        \<lparr>arg = a, op = c, datum = d, action = 0, action_flag = 0,
         lvl_prv = NULL, lvl_nxt = NULL,
         nxt_t = (if tf \<noteq> 0 then q else NULL), nxt_f = (if tf \<noteq> 0 then NULL else q),
         refcnt = 1\<rparr>)"

definition built :: "mem \<Rightarrow> addr \<Rightarrow> nat \<Rightarrow> (nat \<times> nat \<times> nat \<times> nat) list \<Rightarrow> bool" where
  "built m s sc ns \<longleftrightarrow>
     s \<noteq> NULL \<and> brk m = Suc s + length ns \<and>
     syss m s = Some \<lparr>num = sc, chains = (if ns = [] then NULL else Suc s), s_next = NULL\<rparr> \<and>
     (\<forall>i<length ns. trees m (Suc s + i) =
        Some (mk_node (ns ! i) (if Suc i < length ns then Suc s + Suc i else NULL)))"

definition cursor :: "addr \<Rightarrow> (nat \<times> nat \<times> nat \<times> nat) list \<Rightarrow> addr \<Rightarrow> nat \<Rightarrow> bool" where
  "cursor s ns c_prev tf \<longleftrightarrow>
     (if ns = [] then c_prev = NULL
      else c_prev = s + length ns \<and> tf = snd (snd (snd (last ns))))"

definition frame :: "addr \<Rightarrow> mem \<Rightarrow> mem \<Rightarrow> bool" where
  "frame s m m' \<longleftrightarrow>
     filt m' = filt m \<and> brk m \<le> brk m' \<and> (\<forall>q. q \<noteq> s \<longrightarrow> syss m' q = syss m q) \<and>
     (\<forall>q. q \<le> s \<or> brk m' \<le> q \<longrightarrow> trees m' q = trees m q)"

text \<open>
  The nodes of the finished chain \<open>ns\<close> with action \<open>act\<close>, at the addresses from \<open>b\<close> on:
  node \<open>i\<close> of the chain, and the store \<open>h\<close> with the chain written over it.
\<close>

definition chain_node ::
  "(nat \<times> nat \<times> nat \<times> nat) list \<Rightarrow> nat \<Rightarrow> addr \<Rightarrow> nat \<Rightarrow> db_arg_chain_tree" where
  "chain_node ns act b i =
     (if Suc i < length ns then mk_node (ns ! i) (b + Suc i)
      else (mk_node (ns ! i) NULL)\<lparr>action := act, action_flag := snd (snd (snd (ns ! i)))\<rparr>)"


definition slot :: "(nat \<times> nat \<times> nat) list \<Rightarrow> nat \<Rightarrow> db_arg_filter" where
  "slot xs i =
     (case map_of xs i of None \<Rightarrow> zero_filter
      | Some (c, d) \<Rightarrow> \<lparr>valid = 1, f_arg = i, f_op = c, f_datum = d\<rparr>)"




section \<open>Evaluation on concrete stores\<close>

text \<open>A bound written as a numeral is unfolded one step at a time.\<close>

lemmas fuel_numeral [no_atp] =
  db_arg_chain_tree_free.simps(2) [of "pred_numeral n", folded numeral_eq_Suc]
  lvl_first.simps(2) [of "pred_numeral n", folded numeral_eq_Suc]
  db_arg_chain_tree_remove.simps(2) [of "pred_numeral n", folded numeral_eq_Suc]
  remove_loop.simps(2) [of "pred_numeral n", folded numeral_eq_Suc]
  find_loop.simps(2) [of "pred_numeral n", folded numeral_eq_Suc]
  walk.simps(2) [of "pred_numeral n", folded numeral_eq_Suc]
  sys_seek.simps(2) [of "pred_numeral n", folded numeral_eq_Suc]
  for n

lemmas run_defs [no_atp] =
  db_add_syscall_def add_chain_def add_merge_def add_new_entry_def add_free_def
  add_free_match_def walk_step_def ret_def malloc_def rd_tree_def wr_tree_def free_tree_def
  rd_sys_def wr_sys_def free_sys_def rd_ref_def wr_ref_def remove_found_def db_new_def
  db_find_syscall_def zero_filter_def zero_tree_def op_rewrite_def
  SCMP_ARG_MAX_def SCMP_CMP_NE_def SCMP_CMP_LT_def SCMP_CMP_LE_def SCMP_CMP_EQ_def
  SCMP_CMP_GE_def SCMP_CMP_GT_def ENOMEM_def EFAULT_def EINVAL_def
  db_chain_eq_def db_chain_lt_def db_chain_leaf_def
  fuel_numeral

lemma replicate_six: "replicate 6 z = [z, z, z, z, z, z]"
  by (simp add: numeral_eq_Suc)

text \<open>Bounds of the form \<open>n + k\<close>: an evaluation that needs \<open>n\<close> levels works for every
  larger bound.\<close>

lemma fuel5: "5 + k = Suc (Suc (Suc (Suc (Suc k))))"
  by simp

lemma fuel3: "3 + k = Suc (Suc (Suc k))"
  by simp

section \<open>Rules on different syscalls\<close>

text \<open>
  Claim C1 says that two rules on different syscall numbers can be added in either
  order with the same resulting database.  The branch "new syscall, add before
  \<open>s_iter\<close>" stores \<open>s_new\<close> in \<open>s_prev->next\<close> or in \<open>db->syscalls\<close> but never sets
  \<open>s_new->next\<close>, so every entry from \<open>s_iter\<close> on is dropped from the list.  On a new
  filter with default action 2, adding syscall 10 and then syscall 5 (action 1, no
  arguments) leaves a list that holds only syscall 5, and \<open>db_find_syscall\<close> no
  longer finds syscall 10; adding 5 and then 10 leaves both.  All four calls return 0.
\<close>

theorem add_order_loses_entry:
  "add_all 3 (db_new 4 2) [(1, 10, []), (1, 5, [])] =
     Inr ([0, 0],
       \<lparr>trees = Map.empty,
        syss = [1 \<mapsto> \<lparr>num = 10, chains = NULL, s_next = NULL\<rparr>,
                2 \<mapsto> \<lparr>num = 5, chains = NULL, s_next = NULL\<rparr>],
        filt = \<lparr>def_action = 2, syscalls = 2\<rparr>, brk = 3, avail = 2\<rparr>) \<and>
   db_find_syscall 3
       \<lparr>trees = Map.empty,
        syss = [1 \<mapsto> \<lparr>num = 10, chains = NULL, s_next = NULL\<rparr>,
                2 \<mapsto> \<lparr>num = 5, chains = NULL, s_next = NULL\<rparr>],
        filt = \<lparr>def_action = 2, syscalls = 2\<rparr>, brk = 3, avail = 2\<rparr> 10 = Inr NULL \<and>
   add_all 3 (db_new 4 2) [(1, 5, []), (1, 10, [])] =
     Inr ([0, 0],
       \<lparr>trees = Map.empty,
        syss = [1 \<mapsto> \<lparr>num = 5, chains = NULL, s_next = 2\<rparr>,
                2 \<mapsto> \<lparr>num = 10, chains = NULL, s_next = NULL\<rparr>],
        filt = \<lparr>def_action = 2, syscalls = 1\<rparr>, brk = 3, avail = 2\<rparr>) \<and>
   db_find_syscall 3
       \<lparr>trees = Map.empty,
        syss = [1 \<mapsto> \<lparr>num = 5, chains = NULL, s_next = 2\<rparr>,
                2 \<mapsto> \<lparr>num = 10, chains = NULL, s_next = NULL\<rparr>],
        filt = \<lparr>def_action = 2, syscalls = 1\<rparr>, brk = 3, avail = 2\<rparr> 10 = Inr 2"
  by (simp add: replicate_six run_defs) (auto simp: fun_eq_iff)

section \<open>Rules for results\<close>

lemma post_Inl: "F e \<Longrightarrow> post F Q (Inl e)"
  by (simp add: post_def)

lemma post_Inr: "Q v \<Longrightarrow> post F Q (Inr v)"
  by (simp add: post_def)

lemma post_case:
  "post F (\<lambda>v. post F Q (f v)) x \<Longrightarrow> post F Q (case x of Inl e \<Rightarrow> Inl e | Inr v \<Rightarrow> f v)"
  by (cases x) (simp_all add: post_def)

lemma post_if: "(c \<Longrightarrow> post F Q a) \<Longrightarrow> (\<not> c \<Longrightarrow> post F Q b) \<Longrightarrow> post F Q (if c then a else b)"
  by simp

lemma post_prod: "(\<And>a b. x = (a, b) \<Longrightarrow> post F Q (f a b)) \<Longrightarrow> post F Q (case x of (a, b) \<Rightarrow> f a b)"
  by (cases x) simp

lemma post_ctl:
  "(\<And>rc m. x = Done rc m \<Longrightarrow> post F Q (f rc m)) \<Longrightarrow>
   (\<And>m a b c. x = Next m a b c \<Longrightarrow> post F Q (g m a b c)) \<Longrightarrow>
   post F Q (case x of Done rc m \<Rightarrow> f rc m | Next m a b c \<Rightarrow> g m a b c)"
  by (cases x) simp_all

lemma post_weaken: "post F Q' x \<Longrightarrow> (\<And>v. Q' v \<Longrightarrow> Q v) \<Longrightarrow> post F Q x"
  by (cases x) (simp_all add: post_def)

lemma postD: "post F Q x \<Longrightarrow> x = Inr v \<Longrightarrow> Q v"
  by (simp add: post_def)

lemma postD_fault: "post F Q x \<Longrightarrow> x = Inl e \<Longrightarrow> F e"
  by (simp add: post_def)

lemma post_rd_tree:
  "F BadAccess \<Longrightarrow> (\<And>n. trees m p = Some n \<Longrightarrow> p \<noteq> NULL \<Longrightarrow> Q n) \<Longrightarrow> post F Q (rd_tree m p)"
  by (auto simp: post_def rd_tree_def split: option.splits)

lemma post_wr_tree:
  "F BadAccess \<Longrightarrow>
   (\<And>n. trees m p = Some n \<Longrightarrow> p \<noteq> NULL \<Longrightarrow> Q (m\<lparr>trees := (trees m)(p \<mapsto> f n)\<rparr>)) \<Longrightarrow>
   post F Q (wr_tree m p f)"
  by (auto simp: post_def wr_tree_def rd_tree_def split: option.splits)

lemma post_free_tree:
  "F BadAccess \<Longrightarrow>
   (\<And>n. trees m p = Some n \<Longrightarrow> p \<noteq> NULL \<Longrightarrow> Q (m\<lparr>trees := (trees m)(p := None)\<rparr>)) \<Longrightarrow>
   post F Q (free_tree m p)"
  by (auto simp: post_def free_tree_def rd_tree_def split: option.splits)

lemma post_rd_sys:
  "F BadAccess \<Longrightarrow> (\<And>s. syss m p = Some s \<Longrightarrow> p \<noteq> NULL \<Longrightarrow> Q s) \<Longrightarrow> post F Q (rd_sys m p)"
  by (auto simp: post_def rd_sys_def split: option.splits)

lemma post_wr_sys:
  "F BadAccess \<Longrightarrow>
   (\<And>s. syss m p = Some s \<Longrightarrow> p \<noteq> NULL \<Longrightarrow> Q (m\<lparr>syss := (syss m)(p \<mapsto> f s)\<rparr>)) \<Longrightarrow>
   post F Q (wr_sys m p f)"
  by (auto simp: post_def wr_sys_def rd_sys_def split: option.splits)

lemma post_free_sys:
  "F BadAccess \<Longrightarrow>
   (\<And>s. syss m p = Some s \<Longrightarrow> p \<noteq> NULL \<Longrightarrow> Q (m\<lparr>syss := (syss m)(p := None)\<rparr>)) \<Longrightarrow>
   post F Q (free_sys m p)"
  by (auto simp: post_def free_sys_def rd_sys_def split: option.splits)

lemma post_rd_ref:
  "F BadAccess \<Longrightarrow> (\<And>v. Q v) \<Longrightarrow> post F Q (rd_ref m r)"
  unfolding rd_ref_def
  by (cases r) (auto intro!: post_case post_rd_sys post_rd_tree post_Inr)

lemma post_wr_ref:
  "F BadAccess \<Longrightarrow>
   (\<And>s e. r = Sys_chains s \<Longrightarrow> syss m s = Some e \<Longrightarrow> s \<noteq> NULL \<Longrightarrow>
      Q (m\<lparr>syss := (syss m)(s \<mapsto> e\<lparr>chains := v\<rparr>)\<rparr>)) \<Longrightarrow>
   (\<And>p n. r = Tree_nxt_t p \<Longrightarrow> trees m p = Some n \<Longrightarrow> p \<noteq> NULL \<Longrightarrow>
      Q (m\<lparr>trees := (trees m)(p \<mapsto> n\<lparr>nxt_t := v\<rparr>)\<rparr>)) \<Longrightarrow>
   post F Q (wr_ref m r v)"
  unfolding wr_ref_def
  by (cases r) (auto intro!: post_wr_sys post_wr_tree)

lemmas post_intros = post_Inl post_Inr post_case post_if post_prod post_ctl
  post_rd_tree post_wr_tree post_free_tree post_rd_sys post_wr_sys post_free_sys post_rd_ref

section \<open>The array of argument filters\<close>

lemma fill_chain_ok:
  "\<forall>x\<in>set xs. fst x < length chain \<Longrightarrow> distinct (map fst xs) \<Longrightarrow>
   \<forall>x\<in>set xs. valid (chain ! fst x) \<noteq> 1 \<Longrightarrow>
   \<exists>ch. fill_chain chain xs = Inr (Inr ch) \<and> length ch = length chain \<and>
     (\<forall>i<length chain. ch ! i =
        (case map_of xs i of None \<Rightarrow> chain ! i
         | Some (c, d) \<Rightarrow> \<lparr>valid = 1, f_arg = i, f_op = c, f_datum = d\<rparr>))"
proof (induction xs arbitrary: chain)
  case Nil
  then show ?case by simp
next
  case (Cons x xs)
  obtain a c d where x: "x = (a, c, d)" by (cases x)
  let ?ch = "chain[a := \<lparr>valid = 1, f_arg = a, f_op = c, f_datum = d\<rparr>]"
  from Cons.prems x have a: "a < length chain" "valid (chain ! a) \<noteq> 1" "a \<notin> fst ` set xs"
    by auto
  have 1: "\<forall>y\<in>set xs. fst y < length ?ch" using Cons.prems by simp
  have 2: "distinct (map fst xs)" using Cons.prems by simp
  have 3: "\<forall>y\<in>set xs. valid (?ch ! fst y) \<noteq> 1"
  proof
    fix y assume y: "y \<in> set xs"
    then have "fst y \<noteq> a" using a(3) by auto
    then show "valid (?ch ! fst y) \<noteq> 1" using Cons.prems(3) y by simp
  qed
  from Cons.IH [OF 1 2 3] obtain ch where ch:
    "fill_chain ?ch xs = Inr (Inr ch)" "length ch = length ?ch"
    "\<forall>i<length ?ch. ch ! i =
        (case map_of xs i of None \<Rightarrow> ?ch ! i
         | Some (c, d) \<Rightarrow> \<lparr>valid = 1, f_arg = i, f_op = c, f_datum = d\<rparr>)"
    by blast
  have m: "map_of xs a = None" using a(3) by (simp add: map_of_eq_None_iff)
  have "fill_chain chain (x # xs) = Inr (Inr ch)"
    using a ch(1) x by simp
  moreover have "length ch = length chain" using ch(2) by simp
  moreover have "\<forall>i<length chain. ch ! i =
        (case map_of (x # xs) i of None \<Rightarrow> chain ! i
         | Some (c, d) \<Rightarrow> \<lparr>valid = 1, f_arg = i, f_op = c, f_datum = d\<rparr>)"
  proof (intro allI impI)
    fix i assume i: "i < length chain"
    show "ch ! i =
        (case map_of (x # xs) i of None \<Rightarrow> chain ! i
         | Some (c, d) \<Rightarrow> \<lparr>valid = 1, f_arg = i, f_op = c, f_datum = d\<rparr>)"
    proof (cases "i = a")
      case True
      then show ?thesis using ch(3) m a(1) x by simp
    next
      case False
      then show ?thesis using ch(3) i x by (simp split: option.split)
    qed
  qed
  ultimately show ?case by blast
qed

lemma fill_chain_dup:
  "\<forall>x\<in>set xs. fst x < length chain \<Longrightarrow>
   \<not> distinct (map fst xs) \<or> (\<exists>x\<in>set xs. valid (chain ! fst x) = 1) \<Longrightarrow>
   fill_chain chain xs = Inr (Inl (- EINVAL))"
proof (induction xs arbitrary: chain)
  case Nil
  then show ?case by simp
next
  case (Cons x xs)
  obtain a c d where x: "x = (a, c, d)" by (cases x)
  let ?ch = "chain[a := \<lparr>valid = 1, f_arg = a, f_op = c, f_datum = d\<rparr>]"
  show ?case
  proof (cases "valid (chain ! a) = 1")
    case True
    then show ?thesis using Cons.prems(1) x by simp
  next
    case False
    have a: "a < length chain" using Cons.prems(1) x by simp
    have 1: "\<forall>y\<in>set xs. fst y < length ?ch" using Cons.prems by simp
    have 2: "\<not> distinct (map fst xs) \<or> (\<exists>y\<in>set xs. valid (?ch ! fst y) = 1)"
    proof (cases "a \<in> fst ` set xs")
      case True
      then obtain y where y: "y \<in> set xs" "fst y = a" by auto
      then have "valid (?ch ! fst y) = 1" using a by simp
      then show ?thesis using y by blast
    next
      case notin: False
      with Cons.prems(2) x False
      have "\<not> distinct (map fst xs) \<or> (\<exists>y\<in>set xs. valid (chain ! fst y) = 1)"
        by auto
      then show ?thesis
      proof
        assume "\<not> distinct (map fst xs)" then show ?thesis by simp
      next
        assume "\<exists>y\<in>set xs. valid (chain ! fst y) = 1"
        then obtain y where y: "y \<in> set xs" "valid (chain ! fst y) = 1" by blast
        then have "fst y \<noteq> a" using notin by auto
        then have "valid (?ch ! fst y) = 1" using y by simp
        then show ?thesis using y by blast
      qed
    qed
    from Cons.IH [OF 1 2] show ?thesis using False a x by simp
  qed
qed

lemma fill_chain_oob:
  "distinct (map fst xs) \<Longrightarrow> \<forall>x\<in>set xs. fst x < length chain \<longrightarrow> valid (chain ! fst x) \<noteq> 1 \<Longrightarrow>
   (fill_chain chain xs = Inl OutOfBounds) = (\<exists>x\<in>set xs. length chain \<le> fst x)"
proof (induction xs arbitrary: chain)
  case Nil
  then show ?case by simp
next
  case (Cons x xs)
  obtain a c d where x: "x = (a, c, d)" by (cases x)
  let ?ch = "chain[a := \<lparr>valid = 1, f_arg = a, f_op = c, f_datum = d\<rparr>]"
  show ?case
  proof (cases "length chain \<le> a")
    case True
    then show ?thesis using x by auto
  next
    case False
    then have a: "a < length chain" by simp
    have nv: "valid (chain ! a) \<noteq> 1" using Cons.prems(2) a x by simp
    have an: "a \<notin> fst ` set xs" using Cons.prems(1) x by auto
    have 1: "distinct (map fst xs)" using Cons.prems by simp
    have 2: "\<forall>y\<in>set xs. fst y < length ?ch \<longrightarrow> valid (?ch ! fst y) \<noteq> 1"
    proof (intro ballI impI)
      fix y assume y: "y \<in> set xs" "fst y < length ?ch"
      then have "fst y \<noteq> a" using an by auto
      then show "valid (?ch ! fst y) \<noteq> 1" using Cons.prems(2) y by simp
    qed
    from Cons.IH [OF 1 2] show ?thesis using a nv x by auto
  qed
qed

lemma fill_chain_fault: "fill_chain chain xs = Inl e \<Longrightarrow> e = OutOfBounds"
  by (induction chain xs rule: fill_chain.induct) (auto split: if_splits)

lemma fill_chain_rc: "fill_chain chain xs = Inr (Inl rc) \<Longrightarrow> rc = - EINVAL"
  by (induction chain xs rule: fill_chain.induct) (auto split: if_splits)

lemma add_free_rc: "add_free k m s rc = Inr (rc', m') \<Longrightarrow> rc' = rc"
  by (auto simp: add_free_def split: sum.splits)

lemma add_free_match_rc: "add_free_match k m s c = Inr (rc', m') \<Longrightarrow> rc' = 0"
  by (auto simp: add_free_match_def split: sum.splits if_splits)



section \<open>Faults and return values of the heap functions\<close>

text \<open>
  No function that works on the store indexes the array, so none yields \<open>OutOfBounds\<close>;
  and from the point where the merge begins the function returns 0 or \<open>-EFAULT\<close>.
\<close>

lemma post_faults_free:
  "F BadAccess \<Longrightarrow> F OutOfFuel \<Longrightarrow> post F (\<lambda>_. True) (db_arg_chain_tree_free k m p)"
proof (induction k arbitrary: m p)
  case 0
  then show ?case by (simp add: post_def)
next
  case (Suc k)
  show ?case
    unfolding db_arg_chain_tree_free.simps
    by (intro post_intros Suc.IH [OF Suc.prems, THEN post_weaken] Suc.prems | clarsimp)+
qed

lemma post_faults_lvl_first:
  "F BadAccess \<Longrightarrow> F OutOfFuel \<Longrightarrow> post F (\<lambda>_. True) (lvl_first k m p)"
proof (induction k arbitrary: m p)
  case 0
  then show ?case by (simp add: post_def)
next
  case (Suc k)
  show ?case
    unfolding lvl_first.simps
    by (intro post_intros Suc.IH [OF Suc.prems] Suc.prems | clarsimp)+
qed

lemma post_faults_remove_found:
  "F BadAccess \<Longrightarrow> F OutOfFuel \<Longrightarrow> post F (\<lambda>_. True) (remove_found k m tree c)"
  unfolding remove_found_def
  by (intro post_intros post_wr_ref post_faults_free | clarsimp)+

lemma post_faults_remove:
  "F BadAccess \<Longrightarrow> F OutOfFuel \<Longrightarrow>
   post F (\<lambda>_. True) (db_arg_chain_tree_remove k m tree node)"
  "F BadAccess \<Longrightarrow> F OutOfFuel \<Longrightarrow>
   post F (\<lambda>_. True) (remove_loop k m tree node c)"
proof (induction k arbitrary: m tree node c)
  case 0
  { case 1 then show ?case by (simp add: post_def) }
  { case 2 then show ?case by (simp add: post_def) }
next
  case (Suc k)
  { case 1 show ?case
      unfolding db_arg_chain_tree_remove.simps
      by (intro post_intros post_faults_lvl_first [THEN post_weaken]
            Suc.IH(2) [OF "1"] "1" | clarsimp)+ }
  { case 2 show ?case
      unfolding remove_loop.simps
      by (intro post_intros post_faults_remove_found post_faults_free [THEN post_weaken]
            Suc.IH(1) [OF "2", THEN post_weaken] Suc.IH(2) [OF "2"] "2" | clarsimp)+ }
qed

lemma post_rc_add_free:
  "F BadAccess \<Longrightarrow> F OutOfFuel \<Longrightarrow> (\<And>m'. Q (rc, m')) \<Longrightarrow> post F Q (add_free k m s rc)"
  unfolding add_free_def
  by (intro post_intros post_faults_free [THEN post_weaken] | clarsimp)+

lemma post_rc_add_free_match:
  "F BadAccess \<Longrightarrow> F OutOfFuel \<Longrightarrow> (\<And>m'. Q (0, m')) \<Longrightarrow> post F Q (add_free_match k m s c)"
  unfolding add_free_match_def
  by (intro post_intros post_faults_free [THEN post_weaken] | clarsimp)+

lemma rc_merge_simps [simp]: "rc_merge 0" "rc_merge (- EFAULT)"
  by (simp_all add: rc_merge_def)

lemma post_rc_walk_step:
  "F BadAccess \<Longrightarrow> F OutOfFuel \<Longrightarrow>
   post F (\<lambda>c. case c of Done rc m' \<Rightarrow> rc_merge rc | Next m' a b c \<Rightarrow> True)
     (walk_step k m act s_new s_iter c_prev c_iter ec_iter)"
  unfolding walk_step_def ret_def
  by (intro post_intros post_rc_add_free post_rc_add_free_match
        post_faults_free [THEN post_weaken] post_faults_remove(1) [THEN post_weaken] | clarsimp)+

lemma post_rc_walk:
  "F BadAccess \<Longrightarrow> F OutOfFuel \<Longrightarrow>
   post F (\<lambda>(rc, m'). rc_merge rc) (walk j k m act s_new s_iter c_prev c_iter ec_iter)"
proof (induction j arbitrary: m c_prev c_iter ec_iter)
  case 0
  then show ?case by (simp add: post_def)
next
  case (Suc j)
  show ?case
    unfolding walk.simps
    by (intro post_intros post_rc_walk_step [THEN post_weaken] Suc.IH [OF Suc.prems] Suc.prems
        | clarsimp split: ctl.splits)+
qed

lemma post_faults_sys_seek:
  "F BadAccess \<Longrightarrow> F OutOfFuel \<Longrightarrow> post F (\<lambda>_. True) (sys_seek k m sc p q)"
proof (induction k arbitrary: m p q)
  case 0
  then show ?case by (simp add: post_def)
next
  case (Suc k)
  show ?case
    unfolding sys_seek.simps
    by (intro post_intros Suc.IH [OF Suc.prems] Suc.prems | clarsimp)+
qed

lemma post_rc_add_merge:
  "F BadAccess \<Longrightarrow> F OutOfFuel \<Longrightarrow>
   post F (\<lambda>(rc, m'). rc_merge rc) (add_merge k m act sc s_new)"
  unfolding add_merge_def add_new_entry_def
  by (intro post_intros post_rc_add_free post_rc_walk
        post_faults_free [THEN post_weaken] post_faults_sys_seek [THEN post_weaken] | clarsimp)+

lemma post_faults_build_chain:
  "F BadAccess \<Longrightarrow> post F (\<lambda>_. True) (build_chain chain m s_new c_iter c_prev tf)"
proof (induction chain arbitrary: m c_iter c_prev tf)
  case Nil
  then show ?case by (simp add: post_def)
next
  case (Cons a chain)
  show ?case
    unfolding build_chain.simps
    by (intro post_intros Cons.IH [OF Cons.prems] Cons.prems | clarsimp)+
qed


lemma zero_chain_valid: "i < n \<Longrightarrow> valid (replicate n zero_filter ! i) = 0"
  by (simp add: zero_filter_def)

lemma add_chain_early:
  "add_chain m act sc xs = Inr (Inl rc) \<longleftrightarrow>
   rc = - EINVAL \<and>
   (SCMP_ARG_MAX < length xs \<or> fill_chain (replicate SCMP_ARG_MAX zero_filter) xs = Inr (Inl rc))"
  unfolding add_chain_def
  by (auto split: sum.splits prod.splits if_splits dest: fill_chain_rc)

lemma post_no_oob: "post (\<lambda>e. e \<noteq> OutOfBounds) Q x \<Longrightarrow> x \<noteq> Inl OutOfBounds"
  by (auto simp: post_def)

lemma post_rc: "post (\<lambda>_. True) (\<lambda>(rc, _). P rc) x \<Longrightarrow> x = Inr (rc, m) \<Longrightarrow> P rc"
  by (auto simp: post_def)

lemma add_free_no_oob: "add_free k m s rc \<noteq> Inl OutOfBounds"
  by (rule post_no_oob [where Q = "\<lambda>_. True"]) (intro post_rc_add_free | simp)+

lemma add_merge_no_oob: "add_merge k m act sc s \<noteq> Inl OutOfBounds"
  by (rule post_no_oob, rule post_rc_add_merge) simp_all

lemma build_chain_no_oob: "build_chain chain m s c p tf \<noteq> Inl OutOfBounds"
  by (rule post_no_oob, rule post_faults_build_chain) simp

lemma wr_tree_no_oob: "wr_tree m p f \<noteq> Inl OutOfBounds"
  by (rule post_no_oob [where Q = "\<lambda>_. True"]) (intro post_wr_tree | simp)+

lemma add_free_einval: "add_free k m s (- ENOMEM) \<noteq> Inr (- EINVAL, m')"
  by (auto simp: ENOMEM_def EINVAL_def dest: add_free_rc)

lemma add_merge_einval: "add_merge k m act sc s \<noteq> Inr (- EINVAL, m')"
proof
  assume "add_merge k m act sc s = Inr (- EINVAL, m')"
  with post_rc_add_merge [of "\<lambda>_. True" k m act sc s] have "rc_merge (- EINVAL)"
    by (auto simp: post_def)
  then show False by (simp add: rc_merge_def EINVAL_def EFAULT_def)
qed

lemma add_chain_oob:
  "length xs \<le> SCMP_ARG_MAX \<Longrightarrow>
   add_chain m act sc xs = Inl OutOfBounds \<longleftrightarrow>
   fill_chain (replicate SCMP_ARG_MAX zero_filter) xs = Inl OutOfBounds"
  unfolding add_chain_def
  by (auto split: sum.splits prod.splits if_splits simp: build_chain_no_oob wr_tree_no_oob)

lemma db_add_syscall_oob:
  "db_add_syscall k m act sc xs = Inl OutOfBounds \<longleftrightarrow> add_chain m act sc xs = Inl OutOfBounds"
  unfolding db_add_syscall_def
  by (auto split: sum.splits prod.splits simp: add_free_no_oob add_merge_no_oob)

lemma db_add_syscall_einval:
  "db_add_syscall k m act sc xs = Inr (- EINVAL, m') \<longleftrightarrow>
   add_chain m act sc xs = Inr (Inl (- EINVAL)) \<and> m' = m"
  unfolding db_add_syscall_def
  by (auto split: sum.splits prod.splits simp: add_free_einval add_merge_einval)

section \<open>Malformed argument lists\<close>

text \<open>
  Claim C7.  When every argument number supplied is below \<open>SCMP_ARG_MAX\<close>,
  \<open>db_add_syscall\<close> returns \<open>-EINVAL\<close> exactly when the list has two filters for one
  argument number or is longer than \<open>SCMP_ARG_MAX\<close>, and then the store it returns is
  the store it was given: nothing has been allocated or written.
\<close>

theorem invalid_iff_malformed:
  assumes "\<forall>x\<in>set chain_list. fst x < SCMP_ARG_MAX"
  shows "((\<exists>m'. db_add_syscall k m act sc chain_list = Inr (- EINVAL, m')) \<longleftrightarrow>
            \<not> distinct (map fst chain_list) \<or> SCMP_ARG_MAX < length chain_list) \<and>
         (\<forall>m'. db_add_syscall k m act sc chain_list = Inr (- EINVAL, m') \<longrightarrow> m' = m)"
proof -
  let ?z = "replicate SCMP_ARG_MAX zero_filter"
  have rng: "\<forall>x\<in>set chain_list. fst x < length ?z" using assms by simp
  have "fill_chain ?z chain_list = Inr (Inl (- EINVAL)) \<longleftrightarrow> \<not> distinct (map fst chain_list)"
  proof (cases "distinct (map fst chain_list)")
    case True
    have "\<forall>x\<in>set chain_list. valid (?z ! fst x) \<noteq> 1"
      using assms by (simp add: zero_filter_def)
    from fill_chain_ok [OF rng True this] True show ?thesis by auto
  next
    case False
    then show ?thesis using fill_chain_dup [OF rng] by simp
  qed
  then show ?thesis
    by (auto simp: db_add_syscall_einval add_chain_early)
qed

theorem invalid_iff_malformed_witness:
  "fst (0 :: nat, 4 :: nat, 1 :: nat) < SCMP_ARG_MAX \<and>
   \<not> distinct (map fst [(0 :: nat, 4 :: nat, 1 :: nat), (0, 4, 2)]) \<and>
   db_add_syscall 3 (db_new 4 2) 1 10 [(0, 4, 1), (0, 4, 2)] = Inr (- EINVAL, db_new 4 2)"
  using invalid_iff_malformed [of "[(0, 4, 1), (0, 4, 2)]" 3 "db_new 4 2" 1 10]
  by (auto simp: SCMP_ARG_MAX_def)

section \<open>The unchecked array index\<close>

text \<open>
  The array is indexed outside its bounds exactly when the list reaches an argument
  number that is not below the length of the array before it reaches a filter for an
  argument that is already marked valid: the filters before the first such number
  name no argument twice and none that the array already holds.
\<close>

lemma fill_chain_oob_iff:
  "fill_chain chain xs = Inl OutOfBounds \<longleftrightarrow>
   takeWhile (\<lambda>x. fst x < length chain) xs \<noteq> xs \<and>
   distinct (map fst (takeWhile (\<lambda>x. fst x < length chain) xs)) \<and>
   (\<forall>x\<in>set (takeWhile (\<lambda>x. fst x < length chain) xs). valid (chain ! fst x) \<noteq> 1)"
proof (induction xs arbitrary: chain)
  case Nil
  show ?case by simp
next
  case (Cons x xs)
  obtain a c d where x: "x = (a, c, d)" by (cases x)
  let ?ch = "chain[a := \<lparr>valid = 1, f_arg = a, f_op = c, f_datum = d\<rparr>]"
  let ?pre = "takeWhile (\<lambda>x. fst x < length chain) xs"
  show ?case
  proof (cases "length chain \<le> a")
    case True
    then show ?thesis using x by simp
  next
    case False
    then have a: "a < length chain" by simp
    show ?thesis
    proof (cases "valid (chain ! a) = 1")
      case True
      then show ?thesis using a x by simp
    next
      case nv: False
      have "(\<forall>y\<in>set ?pre. valid (?ch ! fst y) \<noteq> 1) \<longleftrightarrow>
            a \<notin> fst ` set ?pre \<and> (\<forall>y\<in>set ?pre. valid (chain ! fst y) \<noteq> 1)"
      proof -
        have "valid (?ch ! fst y) \<noteq> 1 \<longleftrightarrow> fst y \<noteq> a \<and> valid (chain ! fst y) \<noteq> 1"
          if "y \<in> set ?pre" for y
        proof -
          from that have "fst y < length chain" by (auto dest: set_takeWhileD)
          then show ?thesis using a by (cases "fst y = a") simp_all
        qed
        then show ?thesis by auto
      qed
      with Cons.IH [of ?ch] show ?thesis using a nv x by auto
    qed
  qed
qed

lemma add_chain_oob_iff:
  "add_chain m act sc xs = Inl OutOfBounds \<longleftrightarrow>
   length xs \<le> SCMP_ARG_MAX \<and>
   fill_chain (replicate SCMP_ARG_MAX zero_filter) xs = Inl OutOfBounds"
  unfolding add_chain_def
  by (auto split: sum.splits prod.splits if_splits simp: build_chain_no_oob wr_tree_no_oob)

lemma add_chain_too_long:
  "SCMP_ARG_MAX < length xs \<Longrightarrow> add_chain m act sc xs = Inr (Inl (- EINVAL))"
  by (simp add: add_chain_def)

text \<open>
  Claim C10.  \<open>db_add_syscall\<close> checks the number of argument filters against
  \<open>SCMP_ARG_MAX\<close>: a longer list is answered with \<open>-EINVAL\<close> and the store is left as it
  was, before the array is touched.  It does not check the argument numbers.  For
  every list, the array \<open>chain\<close> is indexed outside its bounds exactly when the list
  passes the length check, some argument number is not below \<open>SCMP_ARG_MAX\<close>, and the
  filters before the first such number name no argument twice (a repeated argument
  ends the function with \<open>-EINVAL\<close> before the bad index is reached).  So the
  indexing is within bounds whenever every argument number supplied is below
  \<open>SCMP_ARG_MAX\<close>, and nothing in the function ensures it otherwise.
\<close>

theorem array_index_unchecked:
  "(SCMP_ARG_MAX < length chain_list \<longrightarrow>
      db_add_syscall k m act sc chain_list = Inr (- EINVAL, m)) \<and>
   (db_add_syscall k m act sc chain_list = Inl OutOfBounds \<longleftrightarrow>
      length chain_list \<le> SCMP_ARG_MAX \<and>
      takeWhile (\<lambda>x. fst x < SCMP_ARG_MAX) chain_list \<noteq> chain_list \<and>
      distinct (map fst (takeWhile (\<lambda>x. fst x < SCMP_ARG_MAX) chain_list))) \<and>
   ((\<forall>x\<in>set chain_list. fst x < SCMP_ARG_MAX) \<longrightarrow>
      db_add_syscall k m act sc chain_list \<noteq> Inl OutOfBounds)"
proof -
  let ?z = "replicate SCMP_ARG_MAX zero_filter"
  let ?pre = "takeWhile (\<lambda>x. fst x < SCMP_ARG_MAX) chain_list"
  have v: "\<forall>x\<in>set ?pre. valid (?z ! fst x) \<noteq> 1"
    by (auto dest!: set_takeWhileD simp: zero_filter_def)
  have oob: "db_add_syscall k m act sc chain_list = Inl OutOfBounds \<longleftrightarrow>
      length chain_list \<le> SCMP_ARG_MAX \<and> ?pre \<noteq> chain_list \<and> distinct (map fst ?pre)"
    using v fill_chain_oob_iff [of ?z chain_list]
    by (simp add: db_add_syscall_oob add_chain_oob_iff)
  have long: "db_add_syscall k m act sc chain_list = Inr (- EINVAL, m)"
    if "SCMP_ARG_MAX < length chain_list"
    using that by (simp add: db_add_syscall_einval add_chain_too_long)
  have safe: "db_add_syscall k m act sc chain_list \<noteq> Inl OutOfBounds"
    if "\<forall>x\<in>set chain_list. fst x < SCMP_ARG_MAX"
  proof -
    from that have "?pre = chain_list" by (simp add: takeWhile_eq_all_conv)
    then show ?thesis using oob by simp
  qed
  from oob long safe show ?thesis by blast
qed

theorem array_index_unchecked_witness:
  "db_add_syscall 3 (db_new 4 2) 1 10 [(6, 4, 1)] = Inl OutOfBounds \<and>
   db_add_syscall 3 (db_new 4 2) 1 10 [(0, 4, 1), (6, 4, 2)] = Inl OutOfBounds \<and>
   db_add_syscall 3 (db_new 4 2) 1 10 [(0, 4, 1), (0, 4, 2), (7, 4, 3)] \<noteq> Inl OutOfBounds \<and>
   SCMP_ARG_MAX < length [(0 :: nat, 4 :: nat, 1 :: nat), (1, 4, 1), (2, 4, 1), (3, 4, 1),
                          (4, 4, 1), (5, 4, 1), (0, 4, 2)] \<and>
   db_add_syscall 3 (db_new 4 2) 1 10
       [(0, 4, 1), (1, 4, 1), (2, 4, 1), (3, 4, 1), (4, 4, 1), (5, 4, 1), (0, 4, 2)] =
     Inr (- EINVAL, db_new 4 2) \<and>
   db_add_syscall 3 (db_new 4 2) 1 10
       [(0, 4, 1), (1, 4, 1), (2, 4, 1), (3, 4, 1), (4, 4, 1), (5, 4, 1), (0, 4, 2)] \<noteq>
     Inl OutOfBounds"
  using array_index_unchecked [of "[(6, 4, 1)]" 3 "db_new 4 2" 1 10]
    array_index_unchecked [of "[(0, 4, 1), (6, 4, 2)]" 3 "db_new 4 2" 1 10]
    array_index_unchecked [of "[(0, 4, 1), (0, 4, 2), (7, 4, 3)]" 3 "db_new 4 2" 1 10]
    array_index_unchecked [of "[(0, 4, 1), (1, 4, 1), (2, 4, 1), (3, 4, 1), (4, 4, 1),
                                (5, 4, 1), (0, 4, 2)]" 3 "db_new 4 2" 1 10]
  by (simp add: SCMP_ARG_MAX_def)

section \<open>Leaf discipline\<close>

lemma node_sub_refl [simp]: "node_sub n n"
  by (simp add: node_sub_def)

lemma node_sub_trans: "node_sub a b \<Longrightarrow> node_sub b c \<Longrightarrow> node_sub a c"
  by (auto simp: node_sub_def)

lemma node_sub_upd [simp]:
  "node_sub n (n\<lparr>lvl_prv := a\<rparr>)" "node_sub n (n\<lparr>lvl_nxt := a\<rparr>)"
  "node_sub n (n\<lparr>nxt_t := NULL\<rparr>)" "node_sub n (n\<lparr>nxt_f := NULL\<rparr>)"
  "node_sub n (n\<lparr>refcnt := r\<rparr>)"
  "nxt_t n \<noteq> NULL \<Longrightarrow> node_sub n (n\<lparr>nxt_t := a\<rparr>)"
  by (simp_all add: node_sub_def)

lemma node_sub_ok: "node_ok n \<Longrightarrow> node_sub n n' \<Longrightarrow> node_ok n'"
  by (auto simp: node_ok_def node_sub_def split: if_splits)

lemma shrinks_refl [simp]: "shrinks h h"
  by (simp add: shrinks_def)

lemma shrinks_trans: "shrinks a b \<Longrightarrow> shrinks b c \<Longrightarrow> shrinks a c"
  unfolding shrinks_def by (meson node_sub_trans)

lemma shrinks_del: "shrinks h0 h \<Longrightarrow> shrinks h0 (h(p := None))"
  by (auto simp: shrinks_def)

lemma shrinks_upd:
  assumes "shrinks h0 h" "h p = Some n" "node_sub n v"
  shows "shrinks h0 (h(p \<mapsto> v))"
proof -
  from assms(1,2) obtain n0 where "h0 p = Some n0" "node_sub n0 n"
    by (auto simp: shrinks_def)
  with assms(3) have "\<exists>n. h0 p = Some n \<and> node_sub n v"
    by (blast intro: node_sub_trans)
  with assms(1) show ?thesis by (auto simp: shrinks_def)
qed

lemma leaf_shrinks: "leaf_discipline m \<Longrightarrow> shrinks (trees m) (trees m') \<Longrightarrow> leaf_discipline m'"
  unfolding leaf_discipline_def shrinks_def by (meson node_sub_ok)

text \<open>Rules for a write or a free under \<open>shrinks\<close>: the new store is kept abstract.\<close>

lemma sh_wr_tree:
  "F BadAccess \<Longrightarrow> shrinks h0 (trees m) \<Longrightarrow>
   (\<And>n. trees m p = Some n \<Longrightarrow> node_sub n (f n)) \<Longrightarrow>
   (\<And>m'. shrinks h0 (trees m') \<Longrightarrow> Q m') \<Longrightarrow> post F Q (wr_tree m p f)"
  by (auto simp: post_def wr_tree_def rd_tree_def shrinks_upd split: option.splits)

lemma sh_free_tree:
  "F BadAccess \<Longrightarrow> shrinks h0 (trees m) \<Longrightarrow>
   (\<And>m'. shrinks h0 (trees m') \<Longrightarrow> Q m') \<Longrightarrow> post F Q (free_tree m p)"
  by (auto simp: post_def free_tree_def rd_tree_def shrinks_del split: option.splits)

lemma sh_wr_sys:
  "F BadAccess \<Longrightarrow> shrinks h0 (trees m) \<Longrightarrow>
   (\<And>m'. shrinks h0 (trees m') \<Longrightarrow> Q m') \<Longrightarrow> post F Q (wr_sys m p f)"
  by (auto simp: post_def wr_sys_def rd_sys_def split: option.splits)

lemma sh_free_sys:
  "F BadAccess \<Longrightarrow> shrinks h0 (trees m) \<Longrightarrow>
   (\<And>m'. shrinks h0 (trees m') \<Longrightarrow> Q m') \<Longrightarrow> post F Q (free_sys m p)"
  by (auto simp: post_def free_sys_def rd_sys_def split: option.splits)

lemma post_rd_ref_fields:
  "F BadAccess \<Longrightarrow>
   (\<And>s e. r = Sys_chains s \<Longrightarrow> syss m s = Some e \<Longrightarrow> s \<noteq> NULL \<Longrightarrow> Q (chains e)) \<Longrightarrow>
   (\<And>p n. r = Tree_nxt_t p \<Longrightarrow> trees m p = Some n \<Longrightarrow> p \<noteq> NULL \<Longrightarrow> Q (nxt_t n)) \<Longrightarrow>
   post F Q (rd_ref m r)"
  unfolding rd_ref_def
  by (cases r) (auto intro!: post_case post_rd_sys post_rd_tree post_Inr)

lemma sh_wr_ref:
  "F BadAccess \<Longrightarrow> shrinks h0 (trees m) \<Longrightarrow>
   (\<And>p n. r = Tree_nxt_t p \<Longrightarrow> trees m p = Some n \<Longrightarrow> nxt_t n \<noteq> NULL) \<Longrightarrow>
   (\<And>m'. shrinks h0 (trees m') \<Longrightarrow> Q m') \<Longrightarrow> post F Q (wr_ref m r v)"
  unfolding wr_ref_def
  by (cases r) (auto intro!: sh_wr_sys sh_wr_tree)

lemmas sh_reads = post_Inl post_Inr post_case post_if post_prod
  post_rd_tree post_rd_sys post_rd_ref_fields

lemmas sh_writes = sh_wr_tree sh_free_tree sh_wr_sys sh_free_sys sh_wr_ref

lemma free_shrinks:
  "shrinks h0 (trees m) \<Longrightarrow>
   post (\<lambda>_. True) (\<lambda>m'. shrinks h0 (trees m')) (db_arg_chain_tree_free k m p)"
proof (induction k arbitrary: m p)
  case 0
  then show ?case by (simp add: post_def)
next
  case (Suc k)
  show ?case
    unfolding db_arg_chain_tree_free.simps
    using Suc.prems
    by (intro sh_reads sh_writes [where ?h0.0 = h0] Suc.IH [THEN post_weaken] | clarsimp)+
qed

lemma remove_found_shrinks:
  "shrinks h0 (trees m) \<Longrightarrow>
   post (\<lambda>_. True) (\<lambda>m'. shrinks h0 (trees m')) (remove_found k m tree c)"
  unfolding remove_found_def
  by (intro sh_reads sh_writes [where ?h0.0 = h0]
        free_shrinks [where ?h0.0 = h0, THEN post_weaken] | clarsimp)+

lemma remove_shrinks:
  "shrinks h0 (trees m) \<Longrightarrow>
   post (\<lambda>_. True) (\<lambda>m'. shrinks h0 (trees m')) (db_arg_chain_tree_remove k m tree node)"
  "shrinks h0 (trees m) \<Longrightarrow>
   post (\<lambda>_. True) (\<lambda>m'. shrinks h0 (trees m')) (remove_loop k m tree node c)"
proof (induction k arbitrary: m tree node c)
  case 0
  { case 1 then show ?case by (simp add: post_def) }
  { case 2 then show ?case by (simp add: post_def) }
next
  case (Suc k)
  { case 1 show ?case
      unfolding db_arg_chain_tree_remove.simps
      using "1"
      by (intro sh_reads post_faults_lvl_first [THEN post_weaken] Suc.IH(2) | clarsimp)+ }
  { case 2 show ?case
      unfolding remove_loop.simps
      using "2"
      by (intro sh_reads sh_writes [where ?h0.0 = h0] remove_found_shrinks
            free_shrinks [where ?h0.0 = h0, THEN post_weaken]
            Suc.IH(1) [THEN post_weaken] Suc.IH(2) | clarsimp)+ }
qed


lemma add_free_shrinks:
  "shrinks h0 (trees m) \<Longrightarrow>
   post (\<lambda>_. True) (\<lambda>(rc', m'). shrinks h0 (trees m')) (add_free k m s rc)"
  unfolding add_free_def
  by (intro sh_reads sh_writes [where ?h0.0 = h0]
        free_shrinks [where ?h0.0 = h0, THEN post_weaken] | clarsimp)+

lemma add_free_match_shrinks:
  "shrinks h0 (trees m) \<Longrightarrow>
   post (\<lambda>_. True) (\<lambda>(rc', m'). shrinks h0 (trees m')) (add_free_match k m s c)"
  unfolding add_free_match_def
  by (intro sh_reads sh_writes [where ?h0.0 = h0]
        free_shrinks [where ?h0.0 = h0, THEN post_weaken] | clarsimp)+

lemma post_rd_tree_ok:
  "leaf_discipline m \<Longrightarrow>
   (\<And>n. trees m p = Some n \<Longrightarrow> p \<noteq> NULL \<Longrightarrow> node_ok n \<Longrightarrow> Q n) \<Longrightarrow>
   post (\<lambda>_. True) Q (rd_tree m p)"
  by (auto simp: post_def rd_tree_def leaf_discipline_def split: option.splits)

lemma leaf_upd:
  "leaf_discipline m \<Longrightarrow> node_ok v \<Longrightarrow> leaf_discipline (m\<lparr>trees := (trees m)(p \<mapsto> v)\<rparr>)"
  by (auto simp: leaf_discipline_def)

lemma leaf_other [simp]:
  "leaf_discipline (m\<lparr>syss := s\<rparr>) = leaf_discipline m"
  "leaf_discipline (m\<lparr>filt := f\<rparr>) = leaf_discipline m"
  "leaf_discipline (m\<lparr>brk := b\<rparr>) = leaf_discipline m"
  "leaf_discipline (m\<lparr>avail := a\<rparr>) = leaf_discipline m"
  by (simp_all add: leaf_discipline_def)

lemma leaf_after:
  "leaf_discipline m \<Longrightarrow> node_ok v \<Longrightarrow> shrinks ((trees m)(p \<mapsto> v)) (trees m') \<Longrightarrow>
   leaf_discipline m'"
  using leaf_shrinks [of "m\<lparr>trees := (trees m)(p \<mapsto> v)\<rparr>" m'] by (simp add: leaf_upd)

lemma promote_t:
  assumes "leaf_discipline m" "shrinks ((trees m)(e \<mapsto> v)) (trees m3)"
    "trees m3 e = Some n3" "action_flag v \<noteq> 0"
  shows "leaf_discipline (m3\<lparr>trees := (trees m3)(e \<mapsto> n3\<lparr>nxt_t := NULL\<rparr>)\<rparr>)"
proof -
  have "node_sub v n3"
    using assms(2) [unfolded shrinks_def, rule_format, OF assms(3)] by simp
  then have 1: "node_ok (n3\<lparr>nxt_t := NULL\<rparr>)"
    using assms(4) by (simp add: node_ok_def node_sub_def)
  have 2: "node_ok n" if "trees m3 p = Some n" "p \<noteq> e" for p n
  proof -
    from assms(2) [unfolded shrinks_def, rule_format, OF that(1)] that(2)
    obtain n0 where "trees m p = Some n0" "node_sub n0 n"
      by auto
    with assms(1) show ?thesis by (auto simp: leaf_discipline_def intro: node_sub_ok)
  qed
  show ?thesis using 1 2 by (auto simp: leaf_discipline_def)
qed

lemma promote_f:
  assumes "leaf_discipline m" "shrinks ((trees m)(e \<mapsto> v)) (trees m3)"
    "trees m3 e = Some n3" "action_flag v = 0"
  shows "leaf_discipline (m3\<lparr>trees := (trees m3)(e \<mapsto> n3\<lparr>nxt_f := NULL\<rparr>)\<rparr>)"
proof -
  have "node_sub v n3"
    using assms(2) [unfolded shrinks_def, rule_format, OF assms(3)] by simp
  then have 1: "node_ok (n3\<lparr>nxt_f := NULL\<rparr>)"
    using assms(4) by (simp add: node_ok_def node_sub_def)
  have 2: "node_ok n" if "trees m3 p = Some n" "p \<noteq> e" for p n
  proof -
    from assms(2) [unfolded shrinks_def, rule_format, OF that(1)] that(2)
    obtain n0 where "trees m p = Some n0" "node_sub n0 n"
      by auto
    with assms(1) show ?thesis by (auto simp: leaf_discipline_def intro: node_sub_ok)
  qed
  show ?thesis using 1 2 by (auto simp: leaf_discipline_def)
qed

lemmas leaf_steps = post_Inl post_Inr post_case post_if post_prod post_ctl
  post_rd_tree_ok post_wr_tree post_rd_sys post_wr_sys

lemma free_shrinks0:
  "post (\<lambda>_. True) (\<lambda>m'. shrinks (trees m) (trees m')) (db_arg_chain_tree_free k m p)"
  by (rule free_shrinks) simp

lemma remove_shrinks0:
  "post (\<lambda>_. True) (\<lambda>m'. shrinks (trees m) (trees m')) (db_arg_chain_tree_remove k m t n)"
  by (rule remove_shrinks) simp

lemma add_free_shrinks0:
  "post (\<lambda>_. True) (\<lambda>(rc', m'). shrinks (trees m) (trees m')) (add_free k m s rc)"
  by (rule add_free_shrinks) simp

lemma add_free_match_shrinks0:
  "post (\<lambda>_. True) (\<lambda>(rc', m'). shrinks (trees m) (trees m')) (add_free_match k m s c)"
  by (rule add_free_match_shrinks) simp

lemma leaf_after_e:
  "shrinks ((trees m)(p \<mapsto> v)) (trees m') \<Longrightarrow> leaf_discipline m \<Longrightarrow> node_ok v \<Longrightarrow>
   leaf_discipline m'"
  by (rule leaf_after)

lemma leaf_after_e2:
  "shrinks (trees m1) (trees m') \<Longrightarrow> shrinks ((trees m)(p \<mapsto> v)) (trees m1) \<Longrightarrow>
   leaf_discipline m \<Longrightarrow> node_ok v \<Longrightarrow> leaf_discipline m'"
  by (blast intro: leaf_after shrinks_trans)

lemma promote_t_e:
  "shrinks ((trees m)(e \<mapsto> v)) (trees m3) \<Longrightarrow> leaf_discipline m \<Longrightarrow>
   trees m3 e = Some n3 \<Longrightarrow> action_flag v \<noteq> 0 \<Longrightarrow>
   leaf_discipline (m3\<lparr>trees := (trees m3)(e \<mapsto> n3\<lparr>nxt_t := NULL\<rparr>)\<rparr>)"
  by (rule promote_t)

lemma promote_f_e:
  "shrinks ((trees m)(e \<mapsto> v)) (trees m3) \<Longrightarrow> leaf_discipline m \<Longrightarrow>
   trees m3 e = Some n3 \<Longrightarrow> action_flag v = 0 \<Longrightarrow>
   leaf_discipline (m3\<lparr>trees := (trees m3)(e \<mapsto> n3\<lparr>nxt_f := NULL\<rparr>)\<rparr>)"
  by (rule promote_f)

lemma leaf_walk_step:
  "leaf_discipline m \<Longrightarrow>
   post (\<lambda>_. True)
     (\<lambda>c. case c of Done rc m' \<Rightarrow> leaf_discipline m' | Next m' a b c \<Rightarrow> leaf_discipline m')
     (walk_step k m act s_new s_iter c_prev c_iter ec_iter)"
  unfolding walk_step_def ret_def
  by (intro leaf_steps free_shrinks0 [THEN post_weaken] remove_shrinks0 [THEN post_weaken]
      add_free_shrinks0 [THEN post_weaken] add_free_match_shrinks0 [THEN post_weaken]
      | clarsimp
      | (erule (2) promote_t_e, simp)
      | (erule (2) promote_f_e, simp)
      | (erule (2) leaf_after_e2,
          (auto simp: node_ok_def db_chain_leaf_def split: if_splits)[1])
      | (erule (1) leaf_after_e,
          (auto simp: node_ok_def db_chain_leaf_def split: if_splits)[1])
      | (rule leaf_upd, assumption,
          (auto simp: node_ok_def db_chain_leaf_def split: if_splits)[1]))+


lemma leaf_walk:
  "leaf_discipline m \<Longrightarrow>
   post (\<lambda>_. True) (\<lambda>(rc, m'). leaf_discipline m')
     (walk j k m act s_new s_iter c_prev c_iter ec_iter)"
proof (induction j arbitrary: m c_prev c_iter ec_iter)
  case 0
  then show ?case by (simp add: post_def)
next
  case (Suc j)
  show ?case
    unfolding walk.simps
    using Suc.prems
    by (intro post_Inl post_Inr post_case post_if post_prod post_ctl
          leaf_walk_step [THEN post_weaken] Suc.IH
        | clarsimp split: ctl.splits)+
qed

lemma leaf_add_new_entry:
  "leaf_discipline m \<Longrightarrow>
   post (\<lambda>_. True) (\<lambda>(rc, m'). leaf_discipline m') (add_new_entry m s p)"
  unfolding add_new_entry_def
  by (intro post_Inl post_Inr post_case post_if post_wr_sys | clarsimp)+

lemma leaf_shrinks_e:
  "shrinks (trees m) (trees m') \<Longrightarrow> leaf_discipline m \<Longrightarrow> leaf_discipline m'"
  by (rule leaf_shrinks)

lemma leaf_shrinks_e2:
  "shrinks (trees m1) (trees m') \<Longrightarrow> shrinks (trees m) (trees m1) \<Longrightarrow> leaf_discipline m \<Longrightarrow>
   leaf_discipline m'"
  by (blast intro: leaf_shrinks shrinks_trans)

lemma leaf_add_merge:
  "leaf_discipline m \<Longrightarrow>
   post (\<lambda>_. True) (\<lambda>(rc, m'). leaf_discipline m') (add_merge k m act sc s_new)"
  unfolding add_merge_def
  by (intro post_Inl post_Inr post_case post_if post_prod post_rd_sys post_wr_sys
        post_faults_sys_seek [THEN post_weaken] leaf_add_new_entry
        add_free_shrinks0 [THEN post_weaken] free_shrinks0 [THEN post_weaken] leaf_walk
      | clarsimp
      | (erule (2) leaf_shrinks_e2)
      | (erule (1) leaf_shrinks_e))+


lemma post_assoc:
  "post F Q (case (case x of Inl e \<Rightarrow> Inl e | Inr v \<Rightarrow> f v) of Inl e \<Rightarrow> Inl e | Inr w \<Rightarrow> g w) \<Longrightarrow>
   post F Q (case x of Inl e \<Rightarrow> Inl e | Inr v \<Rightarrow> (case f v of Inl e \<Rightarrow> Inl e | Inr w \<Rightarrow> g w))"
  by (cases x) simp_all

lemma leaf_build_step:
  assumes l: "leaf_discipline m" and t: "tail_ok m c" and p: "p = brk m" "p \<noteq> NULL"
    and z: "action z = 0" "nxt_t z = NULL" "nxt_f z = NULL"
  shows "post (\<lambda>_. True)
      (\<lambda>m4. leaf_discipline m4 \<and> tail_ok m4 p)
      (case (if c \<noteq> NULL
             then (case wr_tree
                         (m\<lparr>brk := Suc (brk m), avail := av\<rparr>
                            \<lparr>trees := (trees (m\<lparr>brk := Suc (brk m), avail := av\<rparr>))(p \<mapsto> z)\<rparr>)
                         c (\<lambda>n. n\<lparr>action := 0\<rparr>) of
                     Inl e \<Rightarrow> Inl e
                   | Inr m2 \<Rightarrow>
                       (if tf \<noteq> 0 then wr_tree m2 c (\<lambda>n. n\<lparr>nxt_t := p\<rparr>)
                        else wr_tree m2 c (\<lambda>n. n\<lparr>nxt_f := p\<rparr>)))
             else wr_sys
                    (m\<lparr>brk := Suc (brk m), avail := av\<rparr>
                       \<lparr>trees := (trees (m\<lparr>brk := Suc (brk m), avail := av\<rparr>))(p \<mapsto> z)\<rparr>)
                    s_new (\<lambda>s. s\<lparr>chains := p\<rparr>)) of
         Inl e \<Rightarrow> Inl e
       | Inr m3 \<Rightarrow> wr_tree m3 p (\<lambda>n. n\<lparr>op := g (op n)\<rparr>))"
proof (cases "c = NULL")
  case True
  have "leaf_discipline (m\<lparr>trees := (trees m)(p \<mapsto> z\<lparr>op := x\<rparr>)\<rparr>)" for x
    using l z by (intro leaf_upd) (simp_all add: node_ok_def)
  then show ?thesis
    using True p z
    by (auto simp: post_def wr_sys_def rd_sys_def wr_tree_def rd_tree_def tail_ok_def
          leaf_discipline_def split: option.splits)
next
  case False
  with t obtain n where n: "c < brk m" "trees m c = Some n" "nxt_t n = NULL" "nxt_f n = NULL"
    by (auto simp: tail_ok_def)
  have cp: "c \<noteq> p" using n(1) p by simp
  have ok: "node_ok v" if "trees m q = Some v" for q v
    using l that by (auto simp: leaf_discipline_def)
  show ?thesis
    using False cp n p z ok
    by (auto simp: post_def wr_tree_def rd_tree_def tail_ok_def leaf_discipline_def node_ok_def
          split: option.splits)
qed


lemma leaf_build_chain:
  "leaf_discipline m \<Longrightarrow> tail_ok m c \<Longrightarrow>
   post (\<lambda>_. True) (\<lambda>(ok, m', c', tf'). leaf_discipline m' \<and> (ok \<longrightarrow> tail_ok m' c'))
     (build_chain chain m s_new c c tf)"
proof (induction chain arbitrary: m c tf)
  case Nil
  then show ?case by (simp add: post_def)
next
  case (Cons a chain)
  show ?case
  proof (cases "valid a = 0")
    case True
    then show ?thesis using Cons.IH [OF Cons.prems] by simp
  next
    case False
    show ?thesis
    proof (cases "avail m = 0 \<or> brk m = NULL")
      case True
      then show ?thesis
        using False Cons.prems(1) by (auto simp: malloc_def post_def)
    next
      case ok: False
      let ?z = "zero_tree\<lparr>arg := f_arg a, op := f_op a, datum := f_datum a, refcnt := 1\<rparr>"
      have z: "action ?z = 0" "nxt_t ?z = NULL" "nxt_f ?z = NULL"
        by (simp_all add: zero_tree_def)
      have p: "brk m = brk m" "brk m \<noteq> NULL" using ok by simp_all
      note step = leaf_build_step [OF Cons.prems p z, where av = "avail m - 1" and tf = tf
          and s_new = s_new and g = "\<lambda>c. fst (op_rewrite c)"]
      have m: "malloc m = (brk m, m\<lparr>brk := Suc (brk m), avail := avail m - 1\<rparr>)"
        using ok by (simp add: malloc_def)
      show ?thesis
        apply (subst build_chain.simps)
        apply (simp only: False if_False m prod.case p(2))
        apply (rule post_assoc)
        apply (rule post_case)
        apply (rule post_weaken [OF step])
        apply (rule Cons.IH)
         apply simp_all
        done
    qed
  qed
qed


lemma leaf_mark:
  "leaf_discipline m \<Longrightarrow> tail_ok m c \<Longrightarrow>
   post (\<lambda>_. True) leaf_discipline
     (if c \<noteq> NULL then wr_tree m c (\<lambda>n. n\<lparr>action := act, action_flag := tf\<rparr>) else Inr m)"
  by (auto simp: post_def wr_tree_def rd_tree_def tail_ok_def node_ok_def
        intro!: leaf_upd split: option.splits)

lemma leaf_mark_wr:
  "leaf_discipline m \<Longrightarrow> tail_ok m c \<Longrightarrow> c \<noteq> NULL \<Longrightarrow>
   post (\<lambda>_. True) leaf_discipline
     (wr_tree m c (\<lambda>n. n\<lparr>action := act, action_flag := tf\<rparr>))"
  using leaf_mark [where m = m and c = c and act = act and tf = tf] by simp

lemma leaf_malloc:
  "malloc m = (p, m0) \<Longrightarrow> leaf_discipline m0 = leaf_discipline m"
  by (auto simp: malloc_def split: if_splits)

lemma post_any: "(\<And>v. Q v) \<Longrightarrow> post (\<lambda>_. True) Q x"
  by (cases x) (simp_all add: post_def)

lemma post_sum:
  "(\<And>a. v = Inl a \<Longrightarrow> post F Q (f a)) \<Longrightarrow> (\<And>b. v = Inr b \<Longrightarrow> post F Q (g b)) \<Longrightarrow>
   post F Q (case v of Inl a \<Rightarrow> f a | Inr b \<Rightarrow> g b)"
  by (cases v) simp_all

lemma leaf_add_chain:
  assumes "leaf_discipline m"
  shows "post (\<lambda>_. True)
     (\<lambda>r. case r of Inl rc \<Rightarrow> True | Inr (ok, s_new, m') \<Rightarrow> leaf_discipline m')
     (add_chain m act sc xs)"
proof -
  obtain s_new m0 where m: "malloc m = (s_new, m0)" by (cases "malloc m")
  have l0: "leaf_discipline m0" using assms leaf_malloc [OF m] by simp
  let ?M = "m0\<lparr>syss := (syss m0)(s_new \<mapsto> \<lparr>num = sc, chains = NULL, s_next = NULL\<rparr>)\<rparr>"
  have lM: "leaf_discipline ?M" "tail_ok ?M NULL" using l0 by (simp_all add: tail_ok_def)
  show ?thesis
    unfolding add_chain_def
    apply (simp only: m prod.case)
    apply (rule post_if)
     apply (simp add: post_def)
    apply (rule post_case)
    apply (rule post_any)
    apply (rule post_sum)
     apply (simp add: post_def)
    apply (rule post_if)
     apply (simp add: post_def l0)
    apply (rule post_case)
    apply (rule post_weaken [OF leaf_build_chain [OF lM]])
    apply (intro post_if post_Inr post_case post_prod leaf_mark [THEN post_weaken]
        leaf_mark_wr [THEN post_weaken]
        | clarsimp)+
    done
qed

lemma leaf_db_add_syscall:
  assumes "leaf_discipline m"
  shows "post (\<lambda>_. True) (\<lambda>(rc, m'). leaf_discipline m') (db_add_syscall k m act sc xs)"
  unfolding db_add_syscall_def
  apply (rule post_case)
  apply (rule post_weaken [OF leaf_add_chain [OF assms]])
  apply (rule post_sum)
   apply (simp add: post_def assms)
  apply (intro post_prod post_if add_free_shrinks0 [THEN post_weaken] leaf_add_merge
      | clarsimp
      | (erule (1) leaf_shrinks_e))+
  done

lemma leaf_discipline_new: "leaf_discipline (db_new n da)"
  by (simp add: leaf_discipline_def db_new_def)

text \<open>
  Claim C9 (I4, P5).  If every node of the store that carries an action has no child on
  the side of its action flag, the same holds of the store that \<open>db_add_syscall\<close>
  returns, whatever it returns: the new chain is built with childless leaves and
  actionless inner nodes, a graft onto a leaf goes to the side opposite its flag, a
  promoted node loses the child on the side of its new flag, and splicing, freeing and
  removal leave action, flag and null children as they are.  A new filter has no
  nodes, so the property holds after every sequence of calls.
\<close>

theorem leaf_discipline_preserved:
  "leaf_discipline m \<Longrightarrow> db_add_syscall k m act sc chain_list = Inr (rc, m') \<Longrightarrow>
   leaf_discipline m'"
  using leaf_db_add_syscall [of m k act sc chain_list] by (simp add: post_def)

theorem leaf_discipline_preserved_witness:
  "leaf_discipline
     \<lparr>trees = [2 \<mapsto> \<lparr>arg = 0, op = 4, datum = 3, action = 0, action_flag = 0,
                       lvl_prv = NULL, lvl_nxt = NULL, nxt_t = 3, nxt_f = NULL, refcnt = 1\<rparr>,
               3 \<mapsto> \<lparr>arg = 1, op = 4, datum = 9, action = 1, action_flag = 1,
                       lvl_prv = NULL, lvl_nxt = NULL, nxt_t = NULL, nxt_f = NULL, refcnt = 1\<rparr>],
      syss = [1 \<mapsto> \<lparr>num = 10, chains = 2, s_next = NULL\<rparr>],
      filt = \<lparr>def_action = 2, syscalls = 1\<rparr>, brk = 4, avail = 5\<rparr> \<and>
   db_add_syscall 3
     \<lparr>trees = [2 \<mapsto> \<lparr>arg = 0, op = 4, datum = 3, action = 0, action_flag = 0,
                       lvl_prv = NULL, lvl_nxt = NULL, nxt_t = 3, nxt_f = NULL, refcnt = 1\<rparr>,
               3 \<mapsto> \<lparr>arg = 1, op = 4, datum = 9, action = 1, action_flag = 1,
                       lvl_prv = NULL, lvl_nxt = NULL, nxt_t = NULL, nxt_f = NULL, refcnt = 1\<rparr>],
      syss = [1 \<mapsto> \<lparr>num = 10, chains = 2, s_next = NULL\<rparr>],
      filt = \<lparr>def_action = 2, syscalls = 1\<rparr>, brk = 4, avail = 5\<rparr>
     1 10 [(0, 4, 3)] =
   Inr (0,
     \<lparr>trees = [2 \<mapsto> \<lparr>arg = 0, op = 4, datum = 3, action = 1, action_flag = 1,
                       lvl_prv = NULL, lvl_nxt = NULL, nxt_t = NULL, nxt_f = NULL, refcnt = 2\<rparr>,
               5 \<mapsto> \<lparr>arg = 0, op = 4, datum = 3, action = 1, action_flag = 1,
                       lvl_prv = NULL, lvl_nxt = NULL, nxt_t = NULL, nxt_f = NULL, refcnt = 1\<rparr>],
      syss = [1 \<mapsto> \<lparr>num = 10, chains = 2, s_next = NULL\<rparr>,
              4 \<mapsto> \<lparr>num = 10, chains = 5, s_next = NULL\<rparr>],
      filt = \<lparr>def_action = 2, syscalls = 1\<rparr>, brk = 6, avail = 3\<rparr>) \<and>
   leaf_discipline
     \<lparr>trees = [2 \<mapsto> \<lparr>arg = 0, op = 4, datum = 3, action = 1, action_flag = 1,
                       lvl_prv = NULL, lvl_nxt = NULL, nxt_t = NULL, nxt_f = NULL, refcnt = 2\<rparr>,
               5 \<mapsto> \<lparr>arg = 0, op = 4, datum = 3, action = 1, action_flag = 1,
                       lvl_prv = NULL, lvl_nxt = NULL, nxt_t = NULL, nxt_f = NULL, refcnt = 1\<rparr>],
      syss = [1 \<mapsto> \<lparr>num = 10, chains = 2, s_next = NULL\<rparr>,
              4 \<mapsto> \<lparr>num = 10, chains = 5, s_next = NULL\<rparr>],
      filt = \<lparr>def_action = 2, syscalls = 1\<rparr>, brk = 6, avail = 3\<rparr>"
  (is "leaf_discipline ?m1 \<and> ?add = Inr (0, ?m2) \<and> leaf_discipline ?m2")
proof -
  have 1: "leaf_discipline ?m1"
    by (auto simp: leaf_discipline_def node_ok_def split: if_splits)
  have 2: "?add = Inr (0, ?m2)"
    by (simp add: replicate_six run_defs) (auto simp: fun_eq_iff)
  from leaf_discipline_preserved [OF 1 2] 1 2 show ?thesis by simp
qed

section \<open>Freeing a tree\<close>

lemma tree_at_cong:
  "(\<And>a. a \<in> addrs s \<Longrightarrow> h' a = h a) \<Longrightarrow> tree_at h' p s = tree_at h p s"
proof (induction s arbitrary: p)
  case Tip
  show ?case by simp
next
  case (Fork a l r t f)
  have a: "h' a = h a" using Fork.prems by simp
  have "tree_at h' q l = tree_at h q l" "tree_at h' q r = tree_at h q r"
    "tree_at h' q t = tree_at h q t" "tree_at h' q f = tree_at h q f" for q
    using Fork.prems by (auto intro!: Fork.IH)
  then show ?case using a by (simp split: option.splits)
qed

lemma tree_at_restrict:
  "tree_at h p s \<Longrightarrow> addrs s \<inter> A = {} \<Longrightarrow> tree_at (h |` (- A)) p s"
  by (subst tree_at_cong [where h = h]) (auto simp: restrict_map_def)

lemma restrict_restrict_compl: "(h |` (- A)) |` (- B) = h |` (- (A \<union> B))"
  by (auto simp: restrict_map_def fun_eq_iff)

lemma trees_upd: "trees (m\<lparr>trees := X\<rparr>) = X"
  by simp

lemma free_null: "0 < k \<Longrightarrow> db_arg_chain_tree_free k m NULL = Inr m"
  by (cases k) simp_all

lemma free_tree_shape:
  "tree_at (trees m) p s \<Longrightarrow> height s < k \<Longrightarrow>
   db_arg_chain_tree_free k m p = Inr (m\<lparr>trees := trees m |` (- addrs s)\<rparr>)"
proof (induction s arbitrary: m p k)
  case Tip
  then obtain k' where "k = Suc k'" by (cases k) auto
  with Tip show ?case by simp
next
  case (Fork a l r t f)
  from Fork.prems(2) obtain k' where k: "k = Suc k'"
    and hl: "height l < k'" and hr: "height r < k'" and ht: "height t < k'" and hf: "height f < k'"
    by (cases k) auto
  from Fork.prems(1) obtain n where n: "trees m a = Some n" and pa: "p = a" "a \<noteq> NULL"
    and tl: "tree_at (trees m) (lvl_prv n) l" and tr: "tree_at (trees m) (lvl_nxt n) r"
    and tt: "tree_at (trees m) (nxt_t n) t" and tf: "tree_at (trees m) (nxt_f n) f"
    and d: "a \<notin> addrs l \<union> addrs r \<union> addrs t \<union> addrs f"
      "addrs l \<inter> addrs r = {}" "addrs l \<inter> addrs t = {}" "addrs l \<inter> addrs f = {}"
      "addrs r \<inter> addrs t = {}" "addrs r \<inter> addrs f = {}" "addrs t \<inter> addrs f = {}"
    by (auto split: option.splits)
  let ?m1 = "m\<lparr>trees := trees m |` (- addrs l)\<rparr>"
  let ?m2 = "m\<lparr>trees := trees m |` (- (addrs l \<union> addrs r))\<rparr>"
  let ?m3 = "m\<lparr>trees := trees m |` (- (addrs l \<union> addrs r \<union> addrs t))\<rparr>"
  let ?m4 = "m\<lparr>trees := trees m |` (- (addrs l \<union> addrs r \<union> addrs t \<union> addrs f))\<rparr>"
  have 1: "db_arg_chain_tree_free k' m (lvl_prv n) = Inr ?m1"
    by (rule Fork.IH(1) [OF tl hl])
  have "tree_at (trees m |` (- addrs l)) (lvl_nxt n) r"
    by (rule tree_at_restrict [OF tr]) (use d in auto)
  then have "tree_at (trees ?m1) (lvl_nxt n) r"
    by (simp only: trees_upd)
  from Fork.IH(2) [OF this hr]
  have 2: "db_arg_chain_tree_free k' ?m1 (lvl_nxt n) = Inr ?m2"
    by (simp add: restrict_restrict_compl)
  have "tree_at (trees m |` (- (addrs l \<union> addrs r))) (nxt_t n) t"
    by (rule tree_at_restrict [OF tt]) (use d in auto)
  then have "tree_at (trees ?m2) (nxt_t n) t"
    by (simp only: trees_upd)
  from Fork.IH(3) [OF this ht]
  have 3: "db_arg_chain_tree_free k' ?m2 (nxt_t n) = Inr ?m3"
    by (simp add: restrict_restrict_compl)
  have "tree_at (trees m |` (- (addrs l \<union> addrs r \<union> addrs t))) (nxt_f n) f"
    by (rule tree_at_restrict [OF tf]) (use d in auto)
  then have "tree_at (trees ?m3) (nxt_f n) f"
    by (simp only: trees_upd)
  from Fork.IH(4) [OF this hf]
  have 4: "db_arg_chain_tree_free k' ?m3 (nxt_f n) = Inr ?m4"
    by (simp add: restrict_restrict_compl)
  have r: "rd_tree m a = Inr n" "rd_tree ?m1 a = Inr n" "rd_tree ?m2 a = Inr n"
    "rd_tree ?m3 a = Inr n" "rd_tree ?m4 a = Inr n"
    using n pa d by (auto simp: rd_tree_def restrict_map_def)
  have e: "(trees m |` (- (addrs l \<union> addrs r \<union> addrs t \<union> addrs f)))(a := None) =
      trees m |` (- insert a (addrs l \<union> addrs r \<union> addrs t \<union> addrs f))"
    by (auto simp: restrict_map_def fun_eq_iff)
  show ?case
    using pa r 1 2 3 4 e by (simp add: k free_tree_def)
qed

section \<open>A rule without argument filters\<close>

lemma find_loop_seek:
  "find_loop k m sc p = Inr it \<Longrightarrow> \<exists>pv. sys_seek k m sc p q = Inr (it, pv)"
proof (induction k arbitrary: p q)
  case 0
  then show ?case by simp
next
  case (Suc k)
  show ?case
  proof (cases "p = NULL")
    case True
    then show ?thesis using Suc.prems by simp
  next
    case False
    with Suc.prems obtain s where s: "rd_sys m p = Inr s"
      by (auto split: sum.splits)
    show ?thesis
    proof (cases "num s < sc")
      case True
      with Suc.prems False s have "find_loop k m sc (s_next s) = Inr it" by simp
      from Suc.IH [OF this, of p] show ?thesis using False s True by simp
    next
      case ge: False
      then show ?thesis using Suc.prems False s by simp
    qed
  qed
qed

lemma find_loop_frame:
  assumes "\<And>a e. syss m a = Some e \<Longrightarrow> syss m' a = Some e"
  shows "find_loop k m sc p = Inr it \<Longrightarrow> find_loop k m' sc p = Inr it"
proof (induction k arbitrary: p)
  case 0
  then show ?case by simp
next
  case (Suc k)
  show ?case
  proof (cases "p = NULL")
    case True
    then show ?thesis using Suc.prems by simp
  next
    case False
    with Suc.prems obtain s where s: "rd_sys m p = Inr s"
      by (auto split: sum.splits)
    then have s': "rd_sys m' p = Inr s"
      using assms by (auto simp: rd_sys_def split: if_splits option.splits)
    show ?thesis
    proof (cases "num s < sc")
      case True
      with Suc.prems False s have "find_loop k m sc (s_next s) = Inr it" by simp
      from Suc.IH [OF this] show ?thesis using False s' True by simp
    next
      case ge: False
      then show ?thesis using Suc.prems False s s' by simp
    qed
  qed
qed

lemma db_find_syscallD:
  assumes "db_find_syscall k m sc = Inr it" "it \<noteq> NULL"
  shows "find_loop k m sc (syscalls (filt m)) = Inr it \<and>
         (\<exists>e. syss m it = Some e \<and> num e = sc)"
  using assms unfolding db_find_syscall_def rd_sys_def
  by (auto split: sum.splits if_splits option.splits)

lemma build_chain_zero:
  "\<forall>a\<in>set chain. valid a = 0 \<Longrightarrow> build_chain chain m s c p tf = Inr (True, m, c, tf)"
  by (induction chain) simp_all

lemma add_chain_empty:
  "0 < avail m \<Longrightarrow> brk m \<noteq> NULL \<Longrightarrow>
   add_chain m act sc [] =
     Inr (Inr (True, brk m,
       m\<lparr>brk := Suc (brk m), avail := avail m - 1,
         syss := (syss m)(brk m \<mapsto> \<lparr>num = sc, chains = NULL, s_next = NULL\<rparr>)\<rparr>))"
  by (simp add: add_chain_def malloc_def build_chain_zero zero_filter_def)

text \<open>
  Case C on a well-formed store.  The syscall has an entry, found by
  \<open>db_find_syscall\<close>, whose \<open>chains\<close> is the root of a tree (every node live and reached
  once), and a rule with no argument filter arrives for it.  Then \<open>db_add_syscall\<close>
  returns 0; every node of that tree has been freed and no other node is touched; the
  entry is still in the store, with \<open>chains\<close> null; the entry allocated for the new rule
  has been freed again, so only the allocator has moved.
\<close>

lemma empty_rule_frees_tree:
  assumes found: "db_find_syscall k m sc = Inr s_iter" "s_iter \<noteq> NULL"
    and e: "syss m s_iter = Some e" "chains e \<noteq> NULL"
    and t: "tree_at (trees m) (chains e) s" "height s < k"
    and a: "0 < avail m" "brk m \<noteq> NULL" "syss m (brk m) = None"
  shows "db_add_syscall k m act sc [] =
     Inr (0, m\<lparr>trees := trees m |` (- addrs s),
               syss := (syss m)(s_iter \<mapsto> e\<lparr>chains := NULL\<rparr>),
               brk := Suc (brk m), avail := avail m - 1\<rparr>)"
proof -
  let ?new = "\<lparr>num = sc, chains = NULL, s_next = NULL\<rparr>"
  let ?M = "m\<lparr>brk := Suc (brk m), avail := avail m - 1,
              syss := (syss m)(brk m \<mapsto> ?new)\<rparr>"
  from db_find_syscallD [OF found] e
  have fl: "find_loop k m sc (syscalls (filt m)) = Inr s_iter" and num: "num e = sc"
    by auto
  have "find_loop k ?M sc (syscalls (filt m)) = Inr s_iter"
    by (rule find_loop_frame [OF _ fl]) (use a(3) in auto)
  from find_loop_seek [OF this, of NULL]
  obtain pv where seek: "sys_seek k ?M sc (syscalls (filt m)) NULL = Inr (s_iter, pv)"
    by blast
  have ne: "s_iter \<noteq> brk m" using e(1) a(3) by auto
  have rd: "rd_sys ?M s_iter = Inr e" "rd_sys ?M (brk m) = Inr ?new"
    using e(1) found(2) a(2) ne by (simp_all add: rd_sys_def)
  have fr: "db_arg_chain_tree_free k ?M (chains e) = Inr (?M\<lparr>trees := trees m |` (- addrs s)\<rparr>)"
    using free_tree_shape [of ?M "chains e" s k] t by simp
  have syss_eq: "((syss m)(brk m \<mapsto> ?new, s_iter \<mapsto> e\<lparr>chains := NULL\<rparr>))(brk m := None) =
      (syss m)(s_iter \<mapsto> e\<lparr>chains := NULL\<rparr>)"
    using a(3) ne by (auto simp: fun_eq_iff)
  have "add_merge k ?M act sc (brk m) =
     Inr (0, m\<lparr>trees := trees m |` (- addrs s),
               syss := (syss m)(s_iter \<mapsto> e\<lparr>chains := NULL\<rparr>),
               brk := Suc (brk m), avail := avail m - 1\<rparr>)"
    unfolding add_merge_def
    using found(2) e(2) num ne a(2) seek rd fr e(1) t(2) a(3)
    by (simp add: add_free_def wr_sys_def rd_sys_def free_sys_def free_null syss_eq)
  then show ?thesis
    by (simp add: db_add_syscall_def add_chain_empty [OF a(1,2)])
qed

text \<open>Scenario 2 is such a store: one filter for syscall 42, then a rule without
  filters.\<close>

lemma empty_rule_scenario_2:
  "add_all 3 (db_new 4 2) [(1, 42, [(0, 4, 7)])] =
     Inr ([0],
       \<lparr>trees = [2 \<mapsto> \<lparr>arg = 0, op = 4, datum = 7, action = 1, action_flag = 1,
                         lvl_prv = NULL, lvl_nxt = NULL, nxt_t = NULL, nxt_f = NULL, refcnt = 1\<rparr>],
        syss = [1 \<mapsto> \<lparr>num = 42, chains = 2, s_next = NULL\<rparr>],
        filt = \<lparr>def_action = 2, syscalls = 1\<rparr>, brk = 3, avail = 2\<rparr>) \<and>
   db_add_syscall 3
       \<lparr>trees = [2 \<mapsto> \<lparr>arg = 0, op = 4, datum = 7, action = 1, action_flag = 1,
                         lvl_prv = NULL, lvl_nxt = NULL, nxt_t = NULL, nxt_f = NULL, refcnt = 1\<rparr>],
        syss = [1 \<mapsto> \<lparr>num = 42, chains = 2, s_next = NULL\<rparr>],
        filt = \<lparr>def_action = 2, syscalls = 1\<rparr>, brk = 3, avail = 2\<rparr> 1 42 [] =
     Inr (0,
       \<lparr>trees = Map.empty,
        syss = [1 \<mapsto> \<lparr>num = 42, chains = NULL, s_next = NULL\<rparr>],
        filt = \<lparr>def_action = 2, syscalls = 1\<rparr>, brk = 4, avail = 1\<rparr>)"
  (is "?first \<and> db_add_syscall 3 ?m 1 42 [] = Inr (0, ?m')")
proof -
  have 1: ?first
    by (simp add: replicate_six run_defs) (auto simp: fun_eq_iff)
  have "db_add_syscall 3 ?m 1 42 [] =
      Inr (0, ?m\<lparr>trees := trees ?m |` (- addrs (Fork 2 Tip Tip Tip Tip)),
                   syss := (syss ?m)(1 \<mapsto> \<lparr>num = 42, chains = 2, s_next = NULL\<rparr>\<lparr>chains := NULL\<rparr>),
                   brk := Suc (brk ?m), avail := avail ?m - 1\<rparr>)"
    by (rule empty_rule_frees_tree [where s_iter = 1]) (simp_all add: run_defs)
  also have "?m\<lparr>trees := trees ?m |` (- addrs (Fork 2 Tip Tip Tip Tip)),
                 syss := (syss ?m)(1 \<mapsto> \<lparr>num = 42, chains = 2, s_next = NULL\<rparr>\<lparr>chains := NULL\<rparr>),
                 brk := Suc (brk ?m), avail := avail ?m - 1\<rparr> = ?m'"
    by (auto simp: fun_eq_iff restrict_map_def)
  finally have 2: "db_add_syscall 3 ?m 1 42 [] = Inr (0, ?m')" .
  from 1 2 show ?thesis by (rule conjI)
qed

text \<open>
  Claim C8 says that a rule without argument filters, arriving for a syscall whose
  entry has a tree, frees the whole tree, leaves the entry without a root and returns
  success.  The store below is reached by three calls that all return 0: the filters
  a0 = 3, a0 = 4 and a0 \<noteq> 4 for syscall 10.  The second call links the leaf 4 as
  \<open>lvl_nxt\<close> of the root 2 (and sets no \<open>lvl_prv\<close> in 4); the third finds 4 with the
  opposite action flag, and \<open>_db_arg_chain_tree_remove\<close> frees 4 without clearing
  \<open>lvl_nxt\<close> of 2, because it unlinks through \<open>lvl_prv\<close> of the node it removes.
  \<open>db_find_syscall\<close> finds the entry, its \<open>chains\<close> is not null, and the call with no
  filter has no result: \<open>_db_arg_chain_tree_free\<close> follows \<open>lvl_nxt\<close> of 2 into the freed
  node.  The last equation is that call of \<open>_db_arg_chain_tree_free\<close>, on the store with
  the entry allocated for the new rule.
\<close>

theorem empty_rule_reads_freed_node:
  "add_all (5 + k) (db_new 9 2)
       [(1, 10, [(0, 4, 3)]), (1, 10, [(0, 4, 4)]), (1, 10, [(0, 1, 4)])] =
     Inr ([0, 0, 0],
       \<lparr>trees = [2 \<mapsto> \<lparr>arg = 0, op = 4, datum = 3, action = 1, action_flag = 1,
                         lvl_prv = NULL, lvl_nxt = 4, nxt_t = NULL, nxt_f = NULL, refcnt = 1\<rparr>],
        syss = [1 \<mapsto> \<lparr>num = 10, chains = 2, s_next = NULL\<rparr>],
        filt = \<lparr>def_action = 2, syscalls = 1\<rparr>, brk = 7, avail = 3\<rparr>) \<and>
   db_find_syscall (5 + k)
       \<lparr>trees = [2 \<mapsto> \<lparr>arg = 0, op = 4, datum = 3, action = 1, action_flag = 1,
                         lvl_prv = NULL, lvl_nxt = 4, nxt_t = NULL, nxt_f = NULL, refcnt = 1\<rparr>],
        syss = [1 \<mapsto> \<lparr>num = 10, chains = 2, s_next = NULL\<rparr>],
        filt = \<lparr>def_action = 2, syscalls = 1\<rparr>, brk = 7, avail = 3\<rparr> 10 = Inr 1 \<and>
   db_add_syscall (5 + k)
       \<lparr>trees = [2 \<mapsto> \<lparr>arg = 0, op = 4, datum = 3, action = 1, action_flag = 1,
                         lvl_prv = NULL, lvl_nxt = 4, nxt_t = NULL, nxt_f = NULL, refcnt = 1\<rparr>],
        syss = [1 \<mapsto> \<lparr>num = 10, chains = 2, s_next = NULL\<rparr>],
        filt = \<lparr>def_action = 2, syscalls = 1\<rparr>, brk = 7, avail = 3\<rparr>
       1 10 [] = Inl BadAccess \<and>
   db_arg_chain_tree_free (5 + k)
       \<lparr>trees = [2 \<mapsto> \<lparr>arg = 0, op = 4, datum = 3, action = 1, action_flag = 1,
                         lvl_prv = NULL, lvl_nxt = 4, nxt_t = NULL, nxt_f = NULL, refcnt = 1\<rparr>],
        syss = [1 \<mapsto> \<lparr>num = 10, chains = 2, s_next = NULL\<rparr>,
                7 \<mapsto> \<lparr>num = 10, chains = NULL, s_next = NULL\<rparr>],
        filt = \<lparr>def_action = 2, syscalls = 1\<rparr>, brk = 8, avail = 2\<rparr>
       2 = Inl BadAccess"
  apply (intro conjI)
     apply (subst fuel5, (simp add: replicate_six run_defs; auto simp: fun_eq_iff))
    apply (subst fuel5, (simp add: replicate_six run_defs; auto simp: fun_eq_iff))
   apply (subst fuel5, (simp add: replicate_six run_defs; auto simp: fun_eq_iff))
  apply (subst fuel5, (simp add: replicate_six run_defs; auto simp: fun_eq_iff))
  done

section \<open>A shorter rule on an existing path\<close>






section \<open>Removal below the first level\<close>


text \<open>
  Claim C2 says that the walk of \<open>db_add_syscall\<close> returns for every stored tree and
  every new chain.  Three calls for syscall 10 on a new filter, with the argument
  filters (a0 = 1, a2 = 1), (a0 = 1, a1 = 1) and (a0 = 1, a1 \<noteq> 1): the first two return
  0 and leave the root 2 (a0 = 1) with the level of 3 (a2 = 1) and 6 (a1 = 1) under its
  \<open>nxt_t\<close>, 6 being \<open>lvl_prv\<close> of 3.  The walk of the third call reaches 6 with a new leaf
  of equal key and the opposite action flag and calls \<open>_db_arg_chain_tree_remove\<close>.  Its
  loop at the root searches \<open>&(c_iter->nxt_t)\<close>: that call frees 6 and returns, leaving
  \<open>lvl_prv\<close> of 3 as it was.  After the test of \<open>nxt_f\<close> the loop searches
  \<open>&(c_iter->nxt_t)\<close> a second time, and this search follows \<open>lvl_prv\<close> of 3 into the
  freed node.  The third call therefore has no result: it reads freed memory.  The
  last two equations are the two searches, on the store of the walk at that point.
\<close>

theorem remove_reads_freed_node:
  "add_all (5 + k) (db_new 9 2)
       [(1, 10, [(0, 4, 1), (2, 4, 1)]), (1, 10, [(0, 4, 1), (1, 4, 1)])] =
     Inr ([0, 0],
       \<lparr>trees = [2 \<mapsto> \<lparr>arg = 0, op = 4, datum = 1, action = 0, action_flag = 0,
                         lvl_prv = NULL, lvl_nxt = NULL, nxt_t = 3, nxt_f = NULL, refcnt = 2\<rparr>,
                 3 \<mapsto> \<lparr>arg = 2, op = 4, datum = 1, action = 1, action_flag = 1,
                         lvl_prv = 6, lvl_nxt = NULL, nxt_t = NULL, nxt_f = NULL, refcnt = 1\<rparr>,
                 6 \<mapsto> \<lparr>arg = 1, op = 4, datum = 1, action = 1, action_flag = 1,
                         lvl_prv = NULL, lvl_nxt = NULL, nxt_t = NULL, nxt_f = NULL, refcnt = 1\<rparr>],
        syss = [1 \<mapsto> \<lparr>num = 10, chains = 2, s_next = NULL\<rparr>],
        filt = \<lparr>def_action = 2, syscalls = 1\<rparr>, brk = 7, avail = 3\<rparr>) \<and>
   db_add_syscall (5 + k)
       \<lparr>trees = [2 \<mapsto> \<lparr>arg = 0, op = 4, datum = 1, action = 0, action_flag = 0,
                         lvl_prv = NULL, lvl_nxt = NULL, nxt_t = 3, nxt_f = NULL, refcnt = 2\<rparr>,
                 3 \<mapsto> \<lparr>arg = 2, op = 4, datum = 1, action = 1, action_flag = 1,
                         lvl_prv = 6, lvl_nxt = NULL, nxt_t = NULL, nxt_f = NULL, refcnt = 1\<rparr>,
                 6 \<mapsto> \<lparr>arg = 1, op = 4, datum = 1, action = 1, action_flag = 1,
                         lvl_prv = NULL, lvl_nxt = NULL, nxt_t = NULL, nxt_f = NULL, refcnt = 1\<rparr>],
        syss = [1 \<mapsto> \<lparr>num = 10, chains = 2, s_next = NULL\<rparr>],
        filt = \<lparr>def_action = 2, syscalls = 1\<rparr>, brk = 7, avail = 3\<rparr>
       1 10 [(0, 4, 1), (1, 1, 1)] = Inl BadAccess \<and>
   db_arg_chain_tree_remove (3 + k)
       \<lparr>trees = [2 \<mapsto> \<lparr>arg = 0, op = 4, datum = 1, action = 0, action_flag = 0,
                         lvl_prv = NULL, lvl_nxt = NULL, nxt_t = 3, nxt_f = NULL, refcnt = 3\<rparr>,
                 3 \<mapsto> \<lparr>arg = 2, op = 4, datum = 1, action = 1, action_flag = 1,
                         lvl_prv = 6, lvl_nxt = NULL, nxt_t = NULL, nxt_f = NULL, refcnt = 1\<rparr>,
                 6 \<mapsto> \<lparr>arg = 1, op = 4, datum = 1, action = 1, action_flag = 1,
                         lvl_prv = NULL, lvl_nxt = NULL, nxt_t = NULL, nxt_f = NULL, refcnt = 2\<rparr>,
                 8 \<mapsto> \<lparr>arg = 0, op = 4, datum = 1, action = 0, action_flag = 0,
                         lvl_prv = NULL, lvl_nxt = NULL, nxt_t = 9, nxt_f = NULL, refcnt = 1\<rparr>,
                 9 \<mapsto> \<lparr>arg = 1, op = 4, datum = 1, action = 1, action_flag = 0,
                         lvl_prv = NULL, lvl_nxt = NULL, nxt_t = NULL, nxt_f = NULL, refcnt = 1\<rparr>],
        syss = [1 \<mapsto> \<lparr>num = 10, chains = 2, s_next = NULL\<rparr>,
                7 \<mapsto> \<lparr>num = 10, chains = 8, s_next = NULL\<rparr>],
        filt = \<lparr>def_action = 2, syscalls = 1\<rparr>, brk = 10, avail = 0\<rparr>
       (Tree_nxt_t 2) 6 =
     Inr \<lparr>trees = [2 \<mapsto> \<lparr>arg = 0, op = 4, datum = 1, action = 0, action_flag = 0,
                         lvl_prv = NULL, lvl_nxt = NULL, nxt_t = 3, nxt_f = NULL, refcnt = 3\<rparr>,
                 3 \<mapsto> \<lparr>arg = 2, op = 4, datum = 1, action = 1, action_flag = 1,
                         lvl_prv = 6, lvl_nxt = NULL, nxt_t = NULL, nxt_f = NULL, refcnt = 1\<rparr>,
                 8 \<mapsto> \<lparr>arg = 0, op = 4, datum = 1, action = 0, action_flag = 0,
                         lvl_prv = NULL, lvl_nxt = NULL, nxt_t = 9, nxt_f = NULL, refcnt = 1\<rparr>,
                 9 \<mapsto> \<lparr>arg = 1, op = 4, datum = 1, action = 1, action_flag = 0,
                         lvl_prv = NULL, lvl_nxt = NULL, nxt_t = NULL, nxt_f = NULL, refcnt = 1\<rparr>],
        syss = [1 \<mapsto> \<lparr>num = 10, chains = 2, s_next = NULL\<rparr>,
                7 \<mapsto> \<lparr>num = 10, chains = 8, s_next = NULL\<rparr>],
        filt = \<lparr>def_action = 2, syscalls = 1\<rparr>, brk = 10, avail = 0\<rparr> \<and>
   db_arg_chain_tree_remove (3 + k)
       \<lparr>trees = [2 \<mapsto> \<lparr>arg = 0, op = 4, datum = 1, action = 0, action_flag = 0,
                         lvl_prv = NULL, lvl_nxt = NULL, nxt_t = 3, nxt_f = NULL, refcnt = 3\<rparr>,
                 3 \<mapsto> \<lparr>arg = 2, op = 4, datum = 1, action = 1, action_flag = 1,
                         lvl_prv = 6, lvl_nxt = NULL, nxt_t = NULL, nxt_f = NULL, refcnt = 1\<rparr>,
                 8 \<mapsto> \<lparr>arg = 0, op = 4, datum = 1, action = 0, action_flag = 0,
                         lvl_prv = NULL, lvl_nxt = NULL, nxt_t = 9, nxt_f = NULL, refcnt = 1\<rparr>,
                 9 \<mapsto> \<lparr>arg = 1, op = 4, datum = 1, action = 1, action_flag = 0,
                         lvl_prv = NULL, lvl_nxt = NULL, nxt_t = NULL, nxt_f = NULL, refcnt = 1\<rparr>],
        syss = [1 \<mapsto> \<lparr>num = 10, chains = 2, s_next = NULL\<rparr>,
                7 \<mapsto> \<lparr>num = 10, chains = 8, s_next = NULL\<rparr>],
        filt = \<lparr>def_action = 2, syscalls = 1\<rparr>, brk = 10, avail = 0\<rparr>
       (Tree_nxt_t 2) 6 = Inl BadAccess"
  apply (intro conjI)
     apply (subst fuel5, simp add: replicate_six run_defs, auto simp: fun_eq_iff)[1]
    apply (subst fuel5, simp add: replicate_six run_defs)
   apply (subst fuel3, (simp add: replicate_six run_defs; auto simp: fun_eq_iff))
  apply (subst fuel3, simp add: replicate_six run_defs)
  done

section \<open>Two leaves with different action flags\<close>








section \<open>The normaliser\<close>

lemma frame_refl: "frame s m m"
  by (simp add: frame_def)

lemma frame_trans: "frame s m m1 \<Longrightarrow> frame s m1 m2 \<Longrightarrow> frame s m m2"
  by (auto simp: frame_def)

text \<open>One iteration of the loop over the array at a valid element.\<close>

lemma build_step:
  assumes b: "built m s sc ns" and av: "0 < avail m" and cu: "cursor s ns c_prev tf"
    and va: "valid a \<noteq> 0"
  shows "\<exists>m4. build_chain (a # rest) m s c_iter c_prev tf =
           build_chain rest m4 s (brk m) (brk m) (snd (op_rewrite (f_op a))) \<and>
         built m4 s sc (ns @ [norm_entry a]) \<and> avail m4 = avail m - 1 \<and> frame s m m4"
proof -
  let ?p = "brk m"
  let ?n0 = "zero_tree\<lparr>arg := f_arg a, op := f_op a, datum := f_datum a, refcnt := 1\<rparr>"
  let ?m1 = "m\<lparr>brk := Suc (brk m), avail := avail m - 1\<rparr>"
  let ?m1' = "?m1\<lparr>trees := (trees ?m1)(?p \<mapsto> ?n0)\<rparr>"
  from b have s: "s \<noteq> NULL" and p: "?p = Suc s + length ns"
    and se: "syss m s = Some \<lparr>num = sc, chains = (if ns = [] then NULL else Suc s), s_next = NULL\<rparr>"
    and nd: "\<forall>i<length ns. trees m (Suc s + i) =
        Some (mk_node (ns ! i) (if Suc i < length ns then Suc s + Suc i else NULL))"
    by (simp_all add: built_def)
  have mal: "malloc m = (?p, ?m1)" using av by (simp add: malloc_def)
  have pn: "?p \<noteq> NULL" using p by simp
  show ?thesis
  proof (cases "ns = []")
    case True
    then have cp: "c_prev = NULL" using cu by (simp add: cursor_def)
    let ?m4 = "?m1\<lparr>syss := (syss m)(s \<mapsto> \<lparr>num = sc, chains = ?p, s_next = NULL\<rparr>),
                    trees := (trees m)(?p \<mapsto> mk_node (norm_entry a) NULL)\<rparr>"
    have "build_chain (a # rest) m s c_iter c_prev tf =
        build_chain rest ?m4 s ?p ?p (snd (op_rewrite (f_op a)))"
      using va mal pn cp s se True
      by (simp add: wr_sys_def rd_sys_def wr_tree_def rd_tree_def zero_tree_def mk_node_def
          norm_entry_def)
    moreover have "built ?m4 s sc (ns @ [norm_entry a])"
      using True s p by (simp add: built_def)
    moreover have "frame s m ?m4" using p by (simp add: frame_def)
    ultimately show ?thesis by (intro exI [of _ ?m4]) simp
  next
    case False
    then have cp: "c_prev = s + length ns" and tf: "tf = snd (snd (snd (last ns)))"
      using cu by (simp_all add: cursor_def)
    obtain la lc ld where l: "last ns = (la, lc, ld, tf)" using tf by (cases "last ns") auto
    have ln: "ns ! (length ns - 1) = last ns" using False by (simp add: last_conv_nth)
    have cpn: "c_prev \<noteq> NULL" "c_prev \<noteq> ?p" using cp p s by simp_all
    have ar: "Suc s + (length ns - 1) = s + length ns" using False by (cases ns) auto
    have cpl: "trees m c_prev = Some (mk_node (last ns) NULL)"
      using nd [rule_format, of "length ns - 1"] False cp ln unfolding ar by simp
    let ?m4 = "?m1\<lparr>trees := (trees m)(?p \<mapsto> mk_node (norm_entry a) NULL,
                                        c_prev \<mapsto> mk_node (last ns) ?p)\<rparr>"
    have "build_chain (a # rest) m s c_iter c_prev tf =
        build_chain rest ?m4 s ?p ?p (snd (op_rewrite (f_op a)))"
      using va mal pn cpn cpl l
      by (simp add: wr_tree_def rd_tree_def zero_tree_def mk_node_def norm_entry_def
          fun_upd_twist)
    moreover have "built ?m4 s sc (ns @ [norm_entry a])"
      unfolding built_def
    proof (intro conjI allI impI)
      show "s \<noteq> NULL" by fact
      show "brk ?m4 = Suc s + length (ns @ [norm_entry a])" using p by simp
      show "syss ?m4 s = Some \<lparr>num = sc,
          chains = (if ns @ [norm_entry a] = [] then NULL else Suc s), s_next = NULL\<rparr>"
        using se False by simp
    next
      fix i assume i: "i < length (ns @ [norm_entry a])"
      consider "i = length ns" | "Suc i = length ns" | "Suc i < length ns"
        using i by force
      then show "trees ?m4 (Suc s + i) =
          Some (mk_node ((ns @ [norm_entry a]) ! i)
                 (if Suc i < length (ns @ [norm_entry a]) then Suc s + Suc i else NULL))"
      proof cases
        case 1
        then show ?thesis using p cp by simp
      next
        case 2
        then have "i = length ns - 1" by simp
        with 2 have "Suc s + i = c_prev" "ns ! i = last ns" using cp ln by auto
        then show ?thesis using 2 p by (simp add: nth_append)
      next
        case 3
        then have "Suc s + i \<noteq> c_prev" "Suc s + i \<noteq> ?p" using cp p by auto
        then show ?thesis using 3 nd by (simp add: nth_append)
      qed
    qed
    moreover have "frame s m ?m4" using p cp False by (auto simp: frame_def)
    ultimately show ?thesis by (intro exI [of _ ?m4]) simp
  qed
qed


lemma build_all:
  "built m s sc ns \<Longrightarrow> length (filter (\<lambda>a. valid a \<noteq> 0) as) \<le> avail m \<Longrightarrow>
   cursor s ns c_prev tf \<Longrightarrow>
   \<exists>m' c' tf'. build_chain as m s c_prev c_prev tf = Inr (True, m', c', tf') \<and>
     built m' s sc (ns @ map norm_entry (filter (\<lambda>a. valid a \<noteq> 0) as)) \<and>
     cursor s (ns @ map norm_entry (filter (\<lambda>a. valid a \<noteq> 0) as)) c' tf' \<and>
     avail m' = avail m - length (filter (\<lambda>a. valid a \<noteq> 0) as) \<and> frame s m m'"
proof (induction as arbitrary: m ns c_prev tf)
  case Nil
  then show ?case by (simp add: frame_refl)
next
  case (Cons a as)
  show ?case
  proof (cases "valid a = 0")
    case True
    with Cons.IH [OF Cons.prems(1) _ Cons.prems(3)] Cons.prems(2) show ?thesis by simp
  next
    case False
    from Cons.prems(2) False have av: "0 < avail m"
      and le: "length (filter (\<lambda>a. valid a \<noteq> 0) as) \<le> avail m - 1" by simp_all
    from build_step [OF Cons.prems(1) av Cons.prems(3) False, of as c_prev]
    obtain m4 where m4:
      "build_chain (a # as) m s c_prev c_prev tf =
         build_chain as m4 s (brk m) (brk m) (snd (op_rewrite (f_op a)))"
      "built m4 s sc (ns @ [norm_entry a])" "avail m4 = avail m - 1" "frame s m m4"
      by blast
    have "brk m = Suc s + length ns" using Cons.prems(1) by (simp add: built_def)
    then have cu: "cursor s (ns @ [norm_entry a]) (brk m) (snd (op_rewrite (f_op a)))"
      by (simp add: cursor_def norm_entry_def)
    from le m4(3) have le4: "length (filter (\<lambda>a. valid a \<noteq> 0) as) \<le> avail m4" by simp
    from Cons.IH [OF m4(2) le4 cu] obtain m' c' tf' where r:
      "build_chain as m4 s (brk m) (brk m) (snd (op_rewrite (f_op a))) = Inr (True, m', c', tf')"
      "built m' s sc ((ns @ [norm_entry a]) @ map norm_entry (filter (\<lambda>a. valid a \<noteq> 0) as))"
      "cursor s ((ns @ [norm_entry a]) @ map norm_entry (filter (\<lambda>a. valid a \<noteq> 0) as)) c' tf'"
      "avail m' = avail m4 - length (filter (\<lambda>a. valid a \<noteq> 0) as)" "frame s m4 m'"
      by blast
    have "frame s m m'" using m4(4) r(5) by (rule frame_trans)
    with r m4 False show ?thesis by simp
  qed
qed

lemma chain_at_nodes:
  "ns \<noteq> [] \<Longrightarrow> b \<noteq> NULL \<Longrightarrow>
   \<forall>i<length ns. h (b + i) =
      Some (if Suc i < length ns then mk_node (ns ! i) (b + Suc i)
            else (mk_node (ns ! i) NULL)\<lparr>action := act,
                    action_flag := snd (snd (snd (ns ! i)))\<rparr>) \<Longrightarrow>
   chain_at h b ns act"
proof (induction ns arbitrary: b)
  case Nil
  then show ?case by simp
next
  case (Cons x ns)
  obtain a c d tf where x: "x = (a, c, d, tf)" by (cases x)
  from Cons.prems(3) [rule_format, of 0]
  have h0: "h b = Some (if ns \<noteq> [] then mk_node x (Suc b)
            else (mk_node x NULL)\<lparr>action := act, action_flag := tf\<rparr>)"
    using x by simp
  show ?case
  proof (cases "ns = []")
    case True
    then show ?thesis using h0 x Cons.prems(2) by (simp add: mk_node_def)
  next
    case False
    have "\<forall>i<length ns. h (Suc b + i) =
      Some (if Suc i < length ns then mk_node (ns ! i) (Suc b + Suc i)
            else (mk_node (ns ! i) NULL)\<lparr>action := act,
                    action_flag := snd (snd (snd (ns ! i)))\<rparr>)"
    proof (intro allI impI)
      fix i assume "i < length ns"
      then show "h (Suc b + i) =
        Some (if Suc i < length ns then mk_node (ns ! i) (Suc b + Suc i)
              else (mk_node (ns ! i) NULL)\<lparr>action := act,
                      action_flag := snd (snd (snd (ns ! i)))\<rparr>)"
        using Cons.prems(3) [rule_format, of "Suc i"] by simp
    qed
    from Cons.IH [OF False _ this] have "chain_at h (Suc b) ns act" by simp
    then show ?thesis using h0 x False Cons.prems(2) by (simp add: mk_node_def)
  qed
qed


lemma op_rewrite_table:
  "c \<in> {SCMP_CMP_EQ, SCMP_CMP_NE, SCMP_CMP_LT, SCMP_CMP_LE, SCMP_CMP_GT, SCMP_CMP_GE} \<Longrightarrow>
   op_rewrite c = norm_table c"
  by (auto simp: op_rewrite_def norm_table_def SCMP_CMP_EQ_def SCMP_CMP_NE_def
      SCMP_CMP_LT_def SCMP_CMP_LE_def SCMP_CMP_GT_def SCMP_CMP_GE_def)

lemma norm_table_basis:
  "fst (norm_table c) \<in> {SCMP_CMP_EQ, SCMP_CMP_GT, SCMP_CMP_GE}"
  by (simp add: norm_table_def)

lemma fill_chain_slots:
  assumes "distinct (map fst xs)" "\<forall>x\<in>set xs. fst x < n"
  shows "fill_chain (replicate n zero_filter) xs = Inr (Inr (map (slot xs) [0..<n]))"
proof -
  let ?z = "replicate n zero_filter"
  have 1: "\<forall>x\<in>set xs. fst x < length ?z" using assms(2) by simp
  have 3: "\<forall>x\<in>set xs. valid (?z ! fst x) \<noteq> 1" using assms(2) by (simp add: zero_filter_def)
  from fill_chain_ok [OF 1 assms(1) 3] obtain ch where ch:
    "fill_chain ?z xs = Inr (Inr ch)" "length ch = length ?z"
    "\<forall>i<length ?z. ch ! i =
        (case map_of xs i of None \<Rightarrow> ?z ! i
         | Some (c, d) \<Rightarrow> \<lparr>valid = 1, f_arg = i, f_op = c, f_datum = d\<rparr>)"
    by blast
  have "ch = map (slot xs) [0..<n]"
    using ch(2,3) by (intro nth_equalityI) (auto simp: slot_def split: option.splits)
  with ch(1) show ?thesis by simp
qed

lemma slot_valid: "valid (slot xs i) \<noteq> 0 \<longleftrightarrow> i \<in> fst ` set xs"
proof -
  have "valid (slot xs i) \<noteq> 0 \<longleftrightarrow> map_of xs i \<noteq> None"
    by (simp add: slot_def zero_filter_def split: option.splits)
  then show ?thesis by (simp add: map_of_eq_None_iff)
qed

lemma slots_filter:
  "filter (\<lambda>a. valid a \<noteq> 0) (map (slot xs) [0..<n]) =
   map (slot xs) (filter (\<lambda>i. i \<in> fst ` set xs) [0..<n])"
  by (simp add: filter_map o_def slot_valid)

lemma slots_length:
  "length (filter (\<lambda>i. i \<in> fst ` set xs) [0..<n]) \<le> length xs"
proof -
  have "length (filter (\<lambda>i. i \<in> fst ` set xs) [0..<n]) =
      card (set (filter (\<lambda>i. i \<in> fst ` set xs) [0..<n]))"
    by (rule distinct_card [symmetric]) simp
  also have "\<dots> \<le> card (fst ` set xs)" by (intro card_mono) auto
  also have "\<dots> \<le> length xs" by (metis card_image_le card_length le_trans List.finite_set)
  finally show ?thesis .
qed

lemma slots_sorted:
  "sorted_wrt (<) (map fst (map norm_entry (map (slot xs)
      (filter (\<lambda>i. i \<in> fst ` set xs) [0..<n]))))"
proof -
  have "map fst (map norm_entry (map (slot xs) (filter (\<lambda>i. i \<in> fst ` set xs) [0..<n]))) =
      filter (\<lambda>i. i \<in> fst ` set xs) [0..<n]"
    by (induction n)
       (auto simp: norm_entry_def slot_def map_of_eq_None_iff split: option.splits)
  moreover have "sorted_wrt (<) (filter (\<lambda>i. i \<in> fst ` set xs) [0..<n])"
    by (intro sorted_wrt_filter) simp
  ultimately show ?thesis by simp
qed

lemma slots_set:
  assumes "distinct (map fst xs)" "\<forall>x\<in>set xs. fst x < n"
    and "\<forall>x\<in>set xs. fst (snd x) \<in>
      {SCMP_CMP_EQ, SCMP_CMP_NE, SCMP_CMP_LT, SCMP_CMP_LE, SCMP_CMP_GT, SCMP_CMP_GE}"
  shows "set (map norm_entry (map (slot xs) (filter (\<lambda>i. i \<in> fst ` set xs) [0..<n]))) =
     (\<lambda>(a, c, d). (a, fst (norm_table c), d, snd (norm_table c))) ` set xs"
proof -
  have e: "norm_entry (slot xs a) = (a, fst (norm_table c), d, snd (norm_table c))"
    if "(a, c, d) \<in> set xs" for a c d
  proof -
    from that assms(1) have "map_of xs a = Some (c, d)" by simp
    moreover from that assms(3) have "op_rewrite c = norm_table c"
      by (intro op_rewrite_table) force
    ultimately show ?thesis by (simp add: norm_entry_def slot_def)
  qed
  show ?thesis
  proof (intro set_eqI iffI)
    fix y
    assume "y \<in> set (map norm_entry (map (slot xs) (filter (\<lambda>i. i \<in> fst ` set xs) [0..<n])))"
    then obtain a where a: "a \<in> fst ` set xs" "y = norm_entry (slot xs a)" by auto
    then obtain c d where "(a, c, d) \<in> set xs" by force
    with e [OF this] a(2)
    show "y \<in> (\<lambda>(a, c, d). (a, fst (norm_table c), d, snd (norm_table c))) ` set xs"
      by force
  next
    fix y
    assume "y \<in> (\<lambda>(a, c, d). (a, fst (norm_table c), d, snd (norm_table c))) ` set xs"
    then obtain a c d where x: "(a, c, d) \<in> set xs"
      "y = (a, fst (norm_table c), d, snd (norm_table c))" by auto
    then have "a < n" "a \<in> fst ` set xs" using assms(2) by force+
    with e [OF x(1)] x(2)
    show "y \<in> set (map norm_entry (map (slot xs) (filter (\<lambda>i. i \<in> fst ` set xs) [0..<n])))"
      by force
  qed
qed

lemma valid_length:
  assumes "distinct (map fst xs)" "\<forall>x\<in>set xs. fst x < n"
  shows "length xs \<le> n"
proof -
  have "length xs = card (fst ` set xs)"
    using assms(1) by (metis distinct_card length_map set_map)
  also have "\<dots> \<le> card {..<n}" using assms(2) by (intro card_mono) auto
  finally show ?thesis by simp
qed

lemma fill_chain_refuse:
  "\<not> (distinct (map fst xs) \<and> (\<forall>x\<in>set xs. fst x < length chain)) \<Longrightarrow>
   fill_chain chain xs = Inr (Inl (- EINVAL)) \<or> fill_chain chain xs = Inl OutOfBounds"
proof (induction xs arbitrary: chain)
  case Nil
  then show ?case by simp
next
  case (Cons x xs)
  obtain a c d where x: "x = (a, c, d)" by (cases x)
  let ?ch = "chain[a := \<lparr>valid = 1, f_arg = a, f_op = c, f_datum = d\<rparr>]"
  show ?case
  proof (cases "length chain \<le> a \<or> valid (chain ! a) = 1")
    case True
    then show ?thesis using x by auto
  next
    case False
    then have a: "a < length chain" "valid (chain ! a) \<noteq> 1" by auto
    have st: "fill_chain chain (x # xs) = fill_chain ?ch xs" using a x by simp
    show ?thesis
    proof (cases "distinct (map fst xs) \<and> (\<forall>y\<in>set xs. fst y < length ?ch)")
      case True
      with Cons.prems x a have "a \<in> fst ` set xs" by auto
      then obtain y where y: "y \<in> set xs" "fst y = a" by auto
      then have "valid (?ch ! fst y) = 1" using a by simp
      with y have "\<exists>y\<in>set xs. valid (?ch ! fst y) = 1" by blast
      with True fill_chain_dup [of xs ?ch] show ?thesis using st by simp
    next
      case False
      from Cons.IH [OF this] show ?thesis using st by simp
    qed
  qed
qed


lemma add_chain_valid:
  assumes d: "distinct (map fst xs)" and r: "\<forall>x\<in>set xs. fst x < SCMP_ARG_MAX"
    and alloc: "length xs < avail m" "brk m \<noteq> NULL"
    and ns: "ns = map norm_entry (map (slot xs)
               (filter (\<lambda>i. i \<in> fst ` set xs) [0..<SCMP_ARG_MAX]))"
  shows "\<exists>m'. add_chain m act sc xs = Inr (Inr (True, brk m, m')) \<and>
     syss m' (brk m) =
       Some \<lparr>num = sc, chains = (if ns = [] then NULL else Suc (brk m)), s_next = NULL\<rparr> \<and>
     chain_at (trees m') (if ns = [] then NULL else Suc (brk m)) ns act \<and>
     brk m' = Suc (brk m) + length ns \<and> avail m' = avail m - 1 - length ns \<and>
     frame (brk m) m m' \<and>
     (\<forall>i<length ns. trees m' (Suc (brk m) + i) = Some (chain_node ns act (Suc (brk m)) i))"
proof -
  let ?s = "brk m"
  let ?as = "map (slot xs) [0..<SCMP_ARG_MAX]"
  let ?M0 = "m\<lparr>brk := Suc (brk m), avail := avail m - 1,
               syss := (syss m)(brk m \<mapsto> \<lparr>num = sc, chains = NULL, s_next = NULL\<rparr>)\<rparr>"
  have fl: "filter (\<lambda>a. valid a \<noteq> 0) ?as = map (slot xs)
      (filter (\<lambda>i. i \<in> fst ` set xs) [0..<SCMP_ARG_MAX])"
    by (rule slots_filter)
  have nsf: "ns = map norm_entry (filter (\<lambda>a. valid a \<noteq> 0) ?as)"
    using ns fl by simp
  have len: "length ns \<le> length xs"
    using ns slots_length [of xs SCMP_ARG_MAX] by simp
  have b0: "built ?M0 ?s sc []" using alloc(2) by (simp add: built_def)
  have c0: "cursor ?s [] NULL 0" by (simp add: cursor_def)
  have a0: "length (filter (\<lambda>a. valid a \<noteq> 0) ?as) \<le> avail ?M0"
    using len alloc(1) nsf by simp
  from build_all [OF b0 a0 c0] nsf obtain m1 c' tf' where m1:
    "build_chain ?as ?M0 ?s NULL NULL 0 = Inr (True, m1, c', tf')"
    "built m1 ?s sc ns" "cursor ?s ns c' tf'"
    "avail m1 = avail ?M0 - length ns" "frame ?s ?M0 m1"
    by auto
  have fr0: "frame ?s m ?M0" by (simp add: frame_def)
  have fr1: "frame ?s m m1" using fr0 m1(5) by (rule frame_trans)
  have nl: "\<not> SCMP_ARG_MAX < length xs" using valid_length [OF d r] by simp
  have fc: "fill_chain (replicate SCMP_ARG_MAX zero_filter) xs = Inr (Inr ?as)"
    by (rule fill_chain_slots [OF d r])
  have mal: "malloc m = (?s, m\<lparr>brk := Suc (brk m), avail := avail m - 1\<rparr>)"
    using alloc(1) by (simp add: malloc_def)
  show ?thesis
  proof (cases "ns = []")
    case True
    then have "c' = NULL" using m1(3) by (simp add: cursor_def)
    then have "add_chain m act sc xs = Inr (Inr (True, ?s, m1))"
      using nl fc mal alloc(2) m1(1) by (simp add: add_chain_def)
    moreover have "syss m1 ?s = Some \<lparr>num = sc, chains = NULL, s_next = NULL\<rparr>"
      "brk m1 = Suc ?s"
      using m1(2) True by (simp_all add: built_def)
    ultimately show ?thesis using True m1(4) fr1 by (intro exI [of _ m1]) simp
  next
    case False
    then have c': "c' = ?s + length ns" and tf': "tf' = snd (snd (snd (last ns)))"
      using m1(3) by (simp_all add: cursor_def)
    have ar: "Suc ?s + (length ns - 1) = ?s + length ns" using False by (cases ns) auto
    have ln: "ns ! (length ns - 1) = last ns" using False by (simp add: last_conv_nth)
    have nd: "\<forall>i<length ns. trees m1 (Suc ?s + i) =
        Some (mk_node (ns ! i) (if Suc i < length ns then Suc ?s + Suc i else NULL))"
      using m1(2) by (simp add: built_def)
    have lastn: "trees m1 c' = Some (mk_node (last ns) NULL)"
      using nd [rule_format, of "length ns - 1"] False c' ln unfolding ar by simp
    let ?leaf = "(mk_node (last ns) NULL)\<lparr>action := act, action_flag := tf'\<rparr>"
    let ?m2 = "m1\<lparr>trees := (trees m1)(c' \<mapsto> ?leaf)\<rparr>"
    have c'n: "c' \<noteq> NULL" using c' False by simp
    have wr: "wr_tree m1 c' (\<lambda>n. n\<lparr>action := act, action_flag := tf'\<rparr>) = Inr ?m2"
      using lastn c'n by (simp add: wr_tree_def rd_tree_def)
    have "add_chain m act sc xs = Inr (Inr (True, ?s, ?m2))"
      using nl fc mal alloc(2) m1(1) c'n wr by (simp add: add_chain_def)
    moreover have "syss ?m2 ?s = Some \<lparr>num = sc, chains = Suc ?s, s_next = NULL\<rparr>"
      "brk ?m2 = Suc ?s + length ns"
      using m1(2) False by (simp_all add: built_def)
    moreover have nodes: "\<forall>i<length ns. trees ?m2 (Suc ?s + i) =
        Some (if Suc i < length ns then mk_node (ns ! i) (Suc ?s + Suc i)
              else (mk_node (ns ! i) NULL)\<lparr>action := act,
                      action_flag := snd (snd (snd (ns ! i)))\<rparr>)"
    proof (intro allI impI)
      fix i assume i: "i < length ns"
      show "trees ?m2 (Suc ?s + i) =
        Some (if Suc i < length ns then mk_node (ns ! i) (Suc ?s + Suc i)
              else (mk_node (ns ! i) NULL)\<lparr>action := act,
                      action_flag := snd (snd (snd (ns ! i)))\<rparr>)"
      proof (cases "Suc i < length ns")
        case True
        then have "Suc ?s + i \<noteq> c'" using c' by simp
        then show ?thesis using True nd i by simp
      next
        case False
        with i have "i = length ns - 1" by simp
        then have "Suc ?s + i = c'" "ns ! i = last ns" using c' ar ln by simp_all
        then show ?thesis using False tf' by simp
      qed
    qed
    moreover have "chain_at (trees ?m2) (Suc ?s) ns act"
      by (rule chain_at_nodes [OF False _ nodes]) simp
    moreover have "brk m1 = Suc ?s + length ns" using m1(2) by (simp add: built_def)
    then have "frame ?s m ?m2" using fr1 c' False by (auto simp: frame_def)
    ultimately show ?thesis using False m1(4)
      by (intro exI [of _ ?m2]) (simp add: chain_node_def)
  qed
qed

lemma add_chain_refuse:
  assumes "\<not> (distinct (map fst xs) \<and> (\<forall>x\<in>set xs. fst x < SCMP_ARG_MAX))"
  shows "add_chain m act sc xs = Inr (Inl (- EINVAL)) \<or> add_chain m act sc xs = Inl OutOfBounds"
proof -
  from assms fill_chain_refuse [of xs "replicate SCMP_ARG_MAX zero_filter"]
  have "fill_chain (replicate SCMP_ARG_MAX zero_filter) xs = Inr (Inl (- EINVAL)) \<or>
        fill_chain (replicate SCMP_ARG_MAX zero_filter) xs = Inl OutOfBounds"
    by simp
  then show ?thesis by (auto simp: add_chain_def)
qed


text \<open>
  Claim C6.  The argument filters have operators among EQ, NE, LT, LE, GT, GE and the
  allocations succeed.  If the list names no argument twice and every argument number
  is below \<open>SCMP_ARG_MAX\<close>, the part of \<open>db_add_syscall\<close> that builds the new chain
  returns the new entry with a chain \<open>ns\<close> such that: the argument numbers of \<open>ns\<close> are
  strictly ascending; \<open>ns\<close> holds exactly the filters of the list, each with its
  operator and action branch rewritten as in the table of the spec; every stored
  operator is EQ, GT or GE; inner nodes are linked on the side of their own action
  branch, and the last node carries the action and its action branch.  Every other
  list is refused before anything is stored (\<open>-EINVAL\<close>, or the array index out of
  bounds of claim C10).  Scenario 4: the filter a0 < 5 with action 1 (ALLOW) for
  syscall 10 on a new filter is stored as the single leaf a0 \<ge> 5 with action flag 0.
\<close>

theorem normaliser_table:
  assumes "\<forall>x\<in>set xs. fst (snd x) \<in>
      {SCMP_CMP_EQ, SCMP_CMP_NE, SCMP_CMP_LT, SCMP_CMP_LE, SCMP_CMP_GT, SCMP_CMP_GE}"
    and "length xs < avail m" and "brk m \<noteq> NULL"
  shows "(distinct (map fst xs) \<and> (\<forall>x\<in>set xs. fst x < SCMP_ARG_MAX) \<longrightarrow>
      (\<exists>m' ns. add_chain m act sc xs = Inr (Inr (True, brk m, m')) \<and>
         syss m' (brk m) =
           Some \<lparr>num = sc, chains = (if xs = [] then NULL else Suc (brk m)), s_next = NULL\<rparr> \<and>
         chain_at (trees m') (if xs = [] then NULL else Suc (brk m)) ns act \<and>
         sorted_wrt (<) (map fst ns) \<and>
         set ns = (\<lambda>(a, c, d). (a, fst (norm_table c), d, snd (norm_table c))) ` set xs \<and>
         (\<forall>x\<in>set ns. fst (snd x) \<in> {SCMP_CMP_EQ, SCMP_CMP_GT, SCMP_CMP_GE}))) \<and>
     (\<not> (distinct (map fst xs) \<and> (\<forall>x\<in>set xs. fst x < SCMP_ARG_MAX)) \<longrightarrow>
        add_chain m act sc xs = Inr (Inl (- EINVAL)) \<or>
        add_chain m act sc xs = Inl OutOfBounds) \<and>
     add_all 3 (db_new 4 2) [(1, 10, [(0, 2, 5)])] =
       Inr ([0],
         \<lparr>trees = [2 \<mapsto> \<lparr>arg = 0, op = 5, datum = 5, action = 1, action_flag = 0,
                           lvl_prv = NULL, lvl_nxt = NULL, nxt_t = NULL, nxt_f = NULL,
                           refcnt = 1\<rparr>],
          syss = [1 \<mapsto> \<lparr>num = 10, chains = 2, s_next = NULL\<rparr>],
          filt = \<lparr>def_action = 2, syscalls = 1\<rparr>, brk = 3, avail = 2\<rparr>)"
proof (intro conjI impI)
  assume v: "distinct (map fst xs) \<and> (\<forall>x\<in>set xs. fst x < SCMP_ARG_MAX)"
  define ns where "ns = map norm_entry (map (slot xs)
      (filter (\<lambda>i. i \<in> fst ` set xs) [0..<SCMP_ARG_MAX]))"
  from v have d: "distinct (map fst xs)" and r: "\<forall>x\<in>set xs. fst x < SCMP_ARG_MAX"
    by simp_all
  have st: "set ns = (\<lambda>(a, c, d). (a, fst (norm_table c), d, snd (norm_table c))) ` set xs"
    unfolding ns_def by (rule slots_set [OF d r assms(1)])
  have e: "ns = [] \<longleftrightarrow> xs = []"
  proof -
    have "set ns = {} \<longleftrightarrow> set xs = {}" unfolding st by simp
    then show ?thesis by simp
  qed
  have so: "sorted_wrt (<) (map fst ns)" unfolding ns_def by (rule slots_sorted)
  have ba: "\<forall>x\<in>set ns. fst (snd x) \<in> {SCMP_CMP_EQ, SCMP_CMP_GT, SCMP_CMP_GE}"
  proof
    fix x assume "x \<in> set ns"
    then obtain a c d where "x = (a, fst (norm_table c), d, snd (norm_table c))"
      unfolding st by auto
    then show "fst (snd x) \<in> {SCMP_CMP_EQ, SCMP_CMP_GT, SCMP_CMP_GE}"
      using norm_table_basis [of c] by simp
  qed
  from add_chain_valid [OF d r assms(2,3) ns_def, of act sc] obtain m' where
    "add_chain m act sc xs = Inr (Inr (True, brk m, m'))"
    "syss m' (brk m) =
       Some \<lparr>num = sc, chains = (if ns = [] then NULL else Suc (brk m)), s_next = NULL\<rparr>"
    "chain_at (trees m') (if ns = [] then NULL else Suc (brk m)) ns act"
    by blast
  with e st so ba
  show "\<exists>m' ns. add_chain m act sc xs = Inr (Inr (True, brk m, m')) \<and>
         syss m' (brk m) =
           Some \<lparr>num = sc, chains = (if xs = [] then NULL else Suc (brk m)), s_next = NULL\<rparr> \<and>
         chain_at (trees m') (if xs = [] then NULL else Suc (brk m)) ns act \<and>
         sorted_wrt (<) (map fst ns) \<and>
         set ns = (\<lambda>(a, c, d). (a, fst (norm_table c), d, snd (norm_table c))) ` set xs \<and>
         (\<forall>x\<in>set ns. fst (snd x) \<in> {SCMP_CMP_EQ, SCMP_CMP_GT, SCMP_CMP_GE})"
    by (intro exI [of _ m'] exI [of _ ns]) simp
next
  assume "\<not> (distinct (map fst xs) \<and> (\<forall>x\<in>set xs. fst x < SCMP_ARG_MAX))"
  then show "add_chain m act sc xs = Inr (Inl (- EINVAL)) \<or>
        add_chain m act sc xs = Inl OutOfBounds"
    by (rule add_chain_refuse)
next
  show "add_all 3 (db_new 4 2) [(1, 10, [(0, 2, 5)])] =
       Inr ([0],
         \<lparr>trees = [2 \<mapsto> \<lparr>arg = 0, op = 5, datum = 5, action = 1, action_flag = 0,
                           lvl_prv = NULL, lvl_nxt = NULL, nxt_t = NULL, nxt_f = NULL,
                           refcnt = 1\<rparr>],
          syss = [1 \<mapsto> \<lparr>num = 10, chains = 2, s_next = NULL\<rparr>],
          filt = \<lparr>def_action = 2, syscalls = 1\<rparr>, brk = 3, avail = 2\<rparr>)"
    by (simp add: replicate_six run_defs; auto simp: fun_eq_iff)
qed

theorem normaliser_table_witness:
  "(\<exists>m' ns. add_chain (db_new 4 2) 1 42 [(1, 1, 0), (0, 4, 7)] =
        Inr (Inr (True, brk (db_new 4 2), m')) \<and>
      syss m' (brk (db_new 4 2)) =
        Some \<lparr>num = 42,
              chains = (if [(1 :: nat, 1 :: nat, 0 :: nat), (0, 4, 7)] = [] then NULL
                        else Suc (brk (db_new 4 2))),
              s_next = NULL\<rparr> \<and>
      chain_at (trees m')
        (if [(1 :: nat, 1 :: nat, 0 :: nat), (0, 4, 7)] = [] then NULL
         else Suc (brk (db_new 4 2))) ns 1 \<and>
      sorted_wrt (<) (map fst ns) \<and>
      set ns = (\<lambda>(a, c, d). (a, fst (norm_table c), d, snd (norm_table c))) `
                 set [(1, 1, 0), (0, 4, 7)] \<and>
      (\<forall>x\<in>set ns. fst (snd x) \<in> {SCMP_CMP_EQ, SCMP_CMP_GT, SCMP_CMP_GE})) \<and>
   add_chain (db_new 4 2) 1 42 [(1, 1, 0), (0, 4, 7)] =
     Inr (Inr (True, 1,
       \<lparr>trees = [2 \<mapsto> \<lparr>arg = 0, op = 4, datum = 7, action = 0, action_flag = 0,
                         lvl_prv = NULL, lvl_nxt = NULL, nxt_t = 3, nxt_f = NULL, refcnt = 1\<rparr>,
                 3 \<mapsto> \<lparr>arg = 1, op = 4, datum = 0, action = 1, action_flag = 0,
                         lvl_prv = NULL, lvl_nxt = NULL, nxt_t = NULL, nxt_f = NULL, refcnt = 1\<rparr>],
        syss = [1 \<mapsto> \<lparr>num = 42, chains = 2, s_next = NULL\<rparr>],
        filt = \<lparr>def_action = 2, syscalls = NULL\<rparr>, brk = 4, avail = 1\<rparr>)) \<and>
   chain_at
     [2 \<mapsto> \<lparr>arg = 0, op = 4, datum = 7, action = 0, action_flag = 0,
                   lvl_prv = NULL, lvl_nxt = NULL, nxt_t = 3, nxt_f = NULL, refcnt = 1\<rparr>,
      3 \<mapsto> \<lparr>arg = 1, op = 4, datum = 0, action = 1, action_flag = 0,
                   lvl_prv = NULL, lvl_nxt = NULL, nxt_t = NULL, nxt_f = NULL, refcnt = 1\<rparr>]
     2 [(0, 4, 7, 1), (1, 4, 0, 0)] 1 \<and>
   (add_chain (db_new 4 2) 1 42 [(0, 4, 1), (0, 4, 2)] = Inr (Inl (- EINVAL)) \<or>
    add_chain (db_new 4 2) 1 42 [(0, 4, 1), (0, 4, 2)] = Inl OutOfBounds)"
proof (intro conjI)
  show "\<exists>m' ns. add_chain (db_new 4 2) 1 42 [(1, 1, 0), (0, 4, 7)] =
        Inr (Inr (True, brk (db_new 4 2), m')) \<and>
      syss m' (brk (db_new 4 2)) =
        Some \<lparr>num = 42,
              chains = (if [(1 :: nat, 1 :: nat, 0 :: nat), (0, 4, 7)] = [] then NULL
                        else Suc (brk (db_new 4 2))),
              s_next = NULL\<rparr> \<and>
      chain_at (trees m')
        (if [(1 :: nat, 1 :: nat, 0 :: nat), (0, 4, 7)] = [] then NULL
         else Suc (brk (db_new 4 2))) ns 1 \<and>
      sorted_wrt (<) (map fst ns) \<and>
      set ns = (\<lambda>(a, c, d). (a, fst (norm_table c), d, snd (norm_table c))) `
                 set [(1, 1, 0), (0, 4, 7)] \<and>
      (\<forall>x\<in>set ns. fst (snd x) \<in> {SCMP_CMP_EQ, SCMP_CMP_GT, SCMP_CMP_GE})"
    apply (rule normaliser_table [where xs = "[(1, 1, 0), (0, 4, 7)]" and m = "db_new 4 2",
          THEN conjunct1, THEN mp])
       apply (simp add: SCMP_CMP_EQ_def SCMP_CMP_NE_def)
      apply (simp add: db_new_def)
     apply (simp add: db_new_def)
    apply (simp add: SCMP_ARG_MAX_def)
    done
  show "add_chain (db_new 4 2) 1 42 [(1, 1, 0), (0, 4, 7)] =
     Inr (Inr (True, 1,
       \<lparr>trees = [2 \<mapsto> \<lparr>arg = 0, op = 4, datum = 7, action = 0, action_flag = 0,
                         lvl_prv = NULL, lvl_nxt = NULL, nxt_t = 3, nxt_f = NULL, refcnt = 1\<rparr>,
                 3 \<mapsto> \<lparr>arg = 1, op = 4, datum = 0, action = 1, action_flag = 0,
                         lvl_prv = NULL, lvl_nxt = NULL, nxt_t = NULL, nxt_f = NULL, refcnt = 1\<rparr>],
        syss = [1 \<mapsto> \<lparr>num = 42, chains = 2, s_next = NULL\<rparr>],
        filt = \<lparr>def_action = 2, syscalls = NULL\<rparr>, brk = 4, avail = 1\<rparr>))"
    by (simp add: replicate_six run_defs; auto simp: fun_eq_iff)
  show "chain_at
     [2 \<mapsto> \<lparr>arg = 0, op = 4, datum = 7, action = 0, action_flag = 0,
                   lvl_prv = NULL, lvl_nxt = NULL, nxt_t = 3, nxt_f = NULL, refcnt = 1\<rparr>,
      3 \<mapsto> \<lparr>arg = 1, op = 4, datum = 0, action = 1, action_flag = 0,
                   lvl_prv = NULL, lvl_nxt = NULL, nxt_t = NULL, nxt_f = NULL, refcnt = 1\<rparr>]
     2 [(0, 4, 7, 1), (1, 4, 0, 0)] 1"
    by simp
  show "add_chain (db_new 4 2) 1 42 [(0, 4, 1), (0, 4, 2)] = Inr (Inl (- EINVAL)) \<or>
    add_chain (db_new 4 2) 1 42 [(0, 4, 1), (0, 4, 2)] = Inl OutOfBounds"
    apply (rule normaliser_table [where xs = "[(0, 4, 1), (0, 4, 2)]" and m = "db_new 4 2",
          THEN conjunct2, THEN conjunct1, THEN mp])
       apply (simp add: SCMP_CMP_EQ_def)
      apply (simp add: db_new_def)
     apply (simp add: db_new_def)
    apply simp
    done
qed

section \<open>The same rule twice\<close>





























end
